theory Spec2Isabelle
  imports Complex_Main "HOL-Library.Word" "HOL-Library.Sublist" "HOL-Library.Multiset"
begin

unbundle bit_operations_syntax

section \<open>Search loops\<close>

text \<open>
  The C idiom \<^verbatim>\<open>for (i = 0; i < n; i++) if (test(a[i])) break;\<close>: the index at which the
  loop breaks, or \<open>None\<close> when it runs to \<open>n\<close> without breaking.
\<close>

fun first_index :: "('a \<Rightarrow> bool) \<Rightarrow> 'a list \<Rightarrow> nat option" where
  "first_index P [] = None"
| "first_index P (x # xs) = (if P x then Some 0 else map_option Suc (first_index P xs))"

section \<open>The option bag (interface.c)\<close>

text \<open>
  A C string is modelled as the list of its characters without the terminating NUL;
  the characters of a C string are therefore all different from NUL.
\<close>

definition cstring :: "string \<Rightarrow> bool" where
  "cstring s = (\<forall>c \<in> set s. (of_char c :: nat) \<noteq> 0)"

text \<open>
  \<^verbatim>\<open>strncmp(s1, s2, n)\<close> of the C library: compares at most \<open>n\<close> characters, stops at the
  first difference or at a terminating NUL (the end of the list), and returns the
  difference of the two characters met there.
\<close>

fun strncmp :: "string \<Rightarrow> string \<Rightarrow> nat \<Rightarrow> int" where
  "strncmp s1 s2 0 = 0"
| "strncmp [] [] (Suc n) = 0"
| "strncmp [] (c2 # s2) (Suc n) = - int (of_char c2)"
| "strncmp (c1 # s1) [] (Suc n) = int (of_char c1)"
| "strncmp (c1 # s1) (c2 # s2) (Suc n) =
     (if c1 \<noteq> c2 then int (of_char c1) - int (of_char c2) else strncmp s1 s2 n)"

text \<open>
  \<^verbatim>\<open>struct options\<close> holds two parallel arrays \<open>k\<close> and \<open>v\<close> with \<open>n\<close> entries in use;
  the model is the list of the \<open>n\<close> stored (key, value) pairs in index order.
\<close>

type_synonym options = "(string \<times> string) list"

text \<open>
  \<^verbatim>\<open>get_option\<close>: the loop \<^verbatim>\<open>for (i = 0; i < options.n; i++)\<close> returning \<open>options.v[i]\<close> at
  the first index whose test succeeds, \<open>NULL\<close> (here \<open>None\<close>) after the loop.
\<close>

fun get_option :: "options \<Rightarrow> string \<Rightarrow> string option" where
  "get_option [] k = None"
| "get_option ((ki, vi) # rest) k =
     (if strncmp k ki (length ki) = 0 then Some vi else get_option rest k)"

text \<open>The search loop of \<^verbatim>\<open>set_option\<close>: the index where it breaks, if it does.\<close>

fun set_option_search :: "options \<Rightarrow> string \<Rightarrow> nat \<Rightarrow> nat option" where
  "set_option_search [] k i = None"
| "set_option_search ((ki, vi) # rest) k i =
     (if strncmp k ki (length ki) = 0 then Some i else set_option_search rest k (Suc i))"

definition set_option :: "options \<Rightarrow> string \<Rightarrow> string \<Rightarrow> options" where
  "set_option opts k v =
     (case set_option_search opts k 0 of
        None \<Rightarrow> opts @ [(k, v)]
      | Some i \<Rightarrow> opts[i := (fst (opts ! i), v)])"

definition init_options :: options where
  "init_options = set_option [] ''params'' ''centerpoint''"

section \<open>Datasets and model descriptors (dataset.h, model.h)\<close>

text \<open>
  A \<^verbatim>\<open>dataset\<close> is a table of doubles. The rows \<^verbatim>\<open>obs[0] .. obs[n-1]\<close> are the list
  \<open>ds_obs\<close> (so \<^verbatim>\<open>n\<close> is its length); \<^verbatim>\<open>weight\<close> is \<open>None\<close> for the C value \<open>-1\<close>.
  Doubles are idealised as real numbers in the arithmetic part of the development; the
  comparison of bit patterns is treated separately below.
\<close>

record dataset =
  ds_nvars :: nat
  ds_varnames :: "string list"
  ds_obs :: "real list list"
  ds_weight :: "nat option"

text \<open>
  The \<^verbatim>\<open>model\<close> struct. \<^verbatim>\<open>numiv\<close> is the length of \<open>iv\<close>, \<^verbatim>\<open>numints\<close> the length of
  \<open>ints\<close>, and \<^verbatim>\<open>inttc[i]\<close> the length of \<open>ints ! i\<close>. The entries of \<open>ints\<close> are C
  \<^verbatim>\<open>int\<close>s meant to index the main-effect arrays.
\<close>

record model =
  dvname :: string
  dv :: nat
  ivnames :: "string list"
  iv :: "nat list"
  direct :: "bool list"
  ints :: "int list list"
  intnames :: "string list"
  xtab :: dataset
  freqs :: "dataset list"

definition numiv :: "model \<Rightarrow> nat" where
  "numiv m = length (iv m)"

definition numints :: "model \<Rightarrow> nat" where
  "numints m = length (ints m)"

definition inttc :: "model \<Rightarrow> nat \<Rightarrow> nat" where
  "inttc m i = length (ints m ! i)"

text \<open>\<^verbatim>\<open>mod->freqs[i]->n\<close>, the number of rows of the i-th frequency table.\<close>

definition freq_n :: "model \<Rightarrow> nat \<Rightarrow> int" where
  "freq_n m i = int (length (ds_obs (freqs m ! i)))"

section \<open>Building the model descriptor (model.c)\<close>

datatype model_variable = DEPENDENT | MAIN | DIRECT | NEW_INTERACTION | INTERACTION

text \<open>
  \<^verbatim>\<open>init_model\<close> receives freshly allocated memory and sets the counters to zero; the other
  fields keep whatever they held.
\<close>

definition init_model :: "model \<Rightarrow> model" where
  "init_model m = m\<lparr>ivnames := [], iv := [], direct := [], ints := [], intnames := []\<rparr>"

text \<open>
  \<^verbatim>\<open>find_varname\<close>: the index of the first variable name equal to \<open>varname\<close>
  (\<^verbatim>\<open>strcmp(...) == 0\<close>), or \<open>None\<close> for the C result \<open>-1\<close>.
\<close>

definition find_varname :: "dataset \<Rightarrow> string \<Rightarrow> nat option" where
  "find_varname ds varname = first_index (\<lambda>name. varname = name) (ds_varnames ds)"

text \<open>
  \<^verbatim>\<open>add_model_variable\<close>. The result is the return code, the updated model and the
  messages logged at level INFO. The local \<^verbatim>\<open>ividx\<close> is declared without an initialiser
  and assigned only inside the search loop over the main effects, when the variable is
  found; \<open>ividx0\<close> is the indeterminate value it holds otherwise. The \<^verbatim>\<open>default\<close> branch
  of the switch is excluded by the type \<open>model_variable\<close>. With \<open>INTERACTION\<close> and no
  interaction yet, the C code indexes \<^verbatim>\<open>mod->inttc[-1]\<close>; the model returns \<open>None\<close>.
\<close>

definition add_main_effect :: "model \<Rightarrow> nat \<Rightarrow> string \<Rightarrow> model_variable \<Rightarrow> model" where
  "add_main_effect m varidx varname vartype =
     m\<lparr>iv := iv m @ [varidx], ivnames := ivnames m @ [varname],
       direct := direct m @ [vartype = DIRECT]\<rparr>"

definition add_model_variable ::
  "int \<Rightarrow> model \<Rightarrow> dataset \<Rightarrow> string \<Rightarrow> model_variable
     \<Rightarrow> (int \<times> model \<times> string list) option" where
  "add_model_variable ividx0 m ds varname vartype =
     (case find_varname ds varname of
        None \<Rightarrow> Some (1, m, [])
      | Some varidx \<Rightarrow>
          if vartype = DEPENDENT then Some (0, m\<lparr>dv := varidx, dvname := varname\<rparr>, [])
          else
            let search = first_index (\<lambda>x. varidx = x) (iv m);
                found = (search \<noteq> None);
                ividx = (case search of Some i \<Rightarrow> int i | None \<Rightarrow> ividx0)
            in
            if found \<and> (vartype = MAIN \<or> vartype = DIRECT)
            then Some (0, m, [''Warning: variable already exists in model: '' @ varname])
            else
              let log1 = (if \<not> found \<and> (vartype = NEW_INTERACTION \<or> vartype = INTERACTION)
                          then [''Warning: this interaction variable will also be added as a main effect: ''
                                  @ varname]
                          else []);
                  m1 = (if \<not> found then add_main_effect m varidx varname vartype else m);
                  m2 = (if vartype = NEW_INTERACTION
                        then m1\<lparr>ints := ints m1 @ [[ividx]], intnames := intnames m1 @ [varname]\<rparr>
                        else m1)
              in
              if vartype = INTERACTION then
                (if numints m2 = 0 then None
                 else
                   let l = numints m2 - 1 in
                   if first_index (\<lambda>x. ividx = x) (ints m2 ! l) \<noteq> None
                   then Some (0, m2, log1 @ [''Warning: interaction variable already exists: '' @ varname])
                   else Some (0, m2\<lparr>ints := (ints m2)[l := ints m2 ! l @ [ividx]],
                                     intnames := (intnames m2)[l := intnames m2 ! l @ ''*'' @ varname]\<rparr>,
                              log1))
              else Some (0, m2, log1))"

text \<open>
  The invariant the descriptor is meant to have: every interaction term is the index of
  a registered main effect.
\<close>

definition ints_registered :: "model \<Rightarrow> bool" where
  "ints_registered m = (\<forall>terms \<in> set (ints m). \<forall>t \<in> set terms. 0 \<le> t \<and> t < int (numiv m))"


section \<open>Linear algebra (mlelr.c)\<close>

subsection \<open>The arithmetic of double\<close>

text \<open>
  The estimator computes in the C type \<^verbatim>\<open>double\<close>. Its operations are parameters of the
  model: a value of type \<open>'d arith\<close> gives, on a type \<open>'d\<close> of double values,

    \<^item> \<open>fconst r\<close>, the double that a numeric constant of the program text (\<^verbatim>\<open>0\<close>, \<^verbatim>\<open>1.0\<close>,
      \<^verbatim>\<open>1e-8\<close>) or an \<^verbatim>\<open>int\<close> converted to \<^verbatim>\<open>double\<close> denotes;
    \<^item> the operators \<^verbatim>\<open>+\<close>, \<^verbatim>\<open>-\<close>, \<^verbatim>\<open>*\<close>, \<^verbatim>\<open>/\<close> and the unary \<^verbatim>\<open>-\<close>;
    \<^item> the functions \<^verbatim>\<open>sqrt\<close>, \<^verbatim>\<open>exp\<close>, \<^verbatim>\<open>log\<close>, \<^verbatim>\<open>fabs\<close> and \<^verbatim>\<open>pow\<close> of \<^verbatim>\<open>math.h\<close>;
    \<^item> the comparisons \<^verbatim>\<open>==\<close>, \<^verbatim>\<open>>\<close>, \<^verbatim>\<open>>=\<close> and \<^verbatim>\<open><=\<close>.

  Nothing is assumed about them. What is proved of the routines for every \<open>'d arith\<close>
  therefore holds of the IEEE 754 operations of the machine, with their rounding, their
  infinities and NaN, as it holds of exact arithmetic. Every expression below applies the
  operations in the order in which C evaluates it.
\<close>

record 'd arith =
  fconst :: "real \<Rightarrow> 'd"
  fadd :: "'d \<Rightarrow> 'd \<Rightarrow> 'd"
  fsub :: "'d \<Rightarrow> 'd \<Rightarrow> 'd"
  fmul :: "'d \<Rightarrow> 'd \<Rightarrow> 'd"
  fdiv :: "'d \<Rightarrow> 'd \<Rightarrow> 'd"
  fneg :: "'d \<Rightarrow> 'd"
  fsqrt :: "'d \<Rightarrow> 'd"
  fexp :: "'d \<Rightarrow> 'd"
  flog :: "'d \<Rightarrow> 'd"
  ffabs :: "'d \<Rightarrow> 'd"
  fpow :: "'d \<Rightarrow> 'd \<Rightarrow> 'd"
  feq :: "'d \<Rightarrow> 'd \<Rightarrow> bool"
  fgt :: "'d \<Rightarrow> 'd \<Rightarrow> bool"
  fge :: "'d \<Rightarrow> 'd \<Rightarrow> bool"
  fle :: "'d \<Rightarrow> 'd \<Rightarrow> bool"

subsection \<open>Matrices\<close>

text \<open>
  A \<^verbatim>\<open>double **\<close> matrix is the list of its rows. \<open>mat_set x i j v\<close> is the assignment
  \<^verbatim>\<open>x[i][j] = v\<close>. The routines below are used on square matrices of the given order.
\<close>

type_synonym matrix = "real list list"

definition square :: "nat \<Rightarrow> 'd list list \<Rightarrow> bool" where
  "square order x = (length x = order \<and> list_all (\<lambda>row. length row = order) x)"

definition mat_set :: "'d list list \<Rightarrow> nat \<Rightarrow> nat \<Rightarrow> 'd \<Rightarrow> 'd list list" where
  "mat_set x i j v = x[i := (x ! i)[j := v]]"

subsection \<open>cholesky\<close>

text \<open>\<^verbatim>\<open>for (j = 0; j < i; j++) sum += x[j][i] * x[j][i];\<close> starting from \<^verbatim>\<open>sum = 0\<close>.\<close>

definition chol_diag_sum :: "'d arith \<Rightarrow> 'd list list \<Rightarrow> nat \<Rightarrow> 'd" where
  "chol_diag_sum fp x i =
     fold (\<lambda>j sum. fadd fp sum (fmul fp (x ! j ! i) (x ! j ! i))) [0..<i] (fconst fp 0)"

text \<open>\<^verbatim>\<open>for (k = 0; k < i; k++) sum += x[k][i] * x[k][j];\<close> starting from \<^verbatim>\<open>sum = 0\<close>.\<close>

definition chol_off_sum :: "'d arith \<Rightarrow> 'd list list \<Rightarrow> nat \<Rightarrow> nat \<Rightarrow> 'd" where
  "chol_off_sum fp x i j =
     fold (\<lambda>k sum. fadd fp sum (fmul fp (x ! k ! i) (x ! k ! j))) [0..<i] (fconst fp 0)"

text \<open>
  The loop \<^verbatim>\<open>for (j = i + 1; j < order; j++)\<close> that fills the rest of row \<open>i\<close> with
  \<^verbatim>\<open>x[i][j] = (x[i][j] - sum) / x[i][i]\<close>.
\<close>

definition chol_row :: "'d arith \<Rightarrow> 'd list list \<Rightarrow> nat \<Rightarrow> nat \<Rightarrow> 'd list list" where
  "chol_row fp x order i =
     fold (\<lambda>j x. mat_set x i j
                    (fdiv fp (fsub fp (x ! i ! j) (chol_off_sum fp x i j)) (x ! i ! i)))
       [Suc i..<order] x"

text \<open>
  The outer loop of \<^verbatim>\<open>cholesky\<close> from pivot \<open>i\<close> on, with the test \<^verbatim>\<open>if (sum >= x[i][i])\<close>
  and the assignment \<^verbatim>\<open>x[i][i] = sqrt(x[i][i] - sum)\<close>. The result is the return value
  \<^verbatim>\<open>ret\<close>, the value of the loop counter \<open>i\<close> when the function returns, and the matrix
  as the function leaves it (it is modified in place).
\<close>

function chol_loop ::
  "'d arith \<Rightarrow> nat \<Rightarrow> nat \<Rightarrow> 'd list list \<Rightarrow> int \<times> nat \<times> 'd list list" where
  "chol_loop fp i order x =
     (if i < order then
        (let sum = chol_diag_sum fp x i in
         if fge fp sum (x ! i ! i) then (1, i, x)
         else chol_loop fp (Suc i) order
                (chol_row fp (mat_set x i i (fsqrt fp (fsub fp (x ! i ! i) sum))) order i))
      else (0, i, x))"
  by pat_completeness auto
termination
  by (relation "measure (\<lambda>(fp, i, order, x). order - i)") auto

declare chol_loop.simps [simp del]

definition cholesky :: "'d arith \<Rightarrow> 'd list list \<Rightarrow> nat \<Rightarrow> int \<times> 'd list list" where
  "cholesky fp x order = (case chol_loop fp 0 order x of (ret, i, x') \<Rightarrow> (ret, x'))"

text \<open>
  The factor as the specification describes it, for comparison with the routine: for
  \<open>i = 0 ... M - 1\<close>, \<open>s\<close> is the sum of \<open>U[j][i]\<^sup>2\<close> over \<open>j < i\<close>, \<open>U[i][i] = sqrt (A[i][i] - s)\<close>
  and, for \<open>j = i + 1 ... M - 1\<close>, \<open>U[i][j] = (A[i][j] - t) / U[i][i]\<close> with \<open>t\<close> the sum of
  \<open>U[k][i] * U[k][j]\<close> over \<open>k < i\<close>. The entries are given by recursion on the indices,
  from \<open>A\<close> alone and not in place; the sums are taken in the arithmetic of the machine,
  by increasing index from 0.
\<close>

function spec_U :: "'d arith \<Rightarrow> 'd list list \<Rightarrow> nat \<Rightarrow> nat \<Rightarrow> 'd" where
  "spec_U fp A i j =
     (if j = i then
        fsqrt fp (fsub fp (A ! i ! i)
          (fold (\<lambda>k s. fadd fp s (fmul fp (spec_U fp A k i) (spec_U fp A k i))) [0..<i]
             (fconst fp 0)))
      else
        fdiv fp (fsub fp (A ! i ! j)
          (fold (\<lambda>k s. fadd fp s (fmul fp (spec_U fp A k i) (spec_U fp A k j))) [0..<i]
             (fconst fp 0)))
          (spec_U fp A i i))"
  by pat_completeness auto
termination
  by (relation "measure (\<lambda>(fp, A, i, j). 2 * i + (if j = i then 0 else 1))") auto

declare spec_U.simps [simp del]

text \<open>The sum \<open>s\<close> of the specification at pivot \<open>i\<close>.\<close>

definition spec_s :: "'d arith \<Rightarrow> 'd list list \<Rightarrow> nat \<Rightarrow> 'd" where
  "spec_s fp A i =
     fold (\<lambda>j s. fadd fp s (fmul fp (spec_U fp A j i) (spec_U fp A j i))) [0..<i] (fconst fp 0)"

subsection \<open>backsub\<close>

text \<open>
  The column loop \<^verbatim>\<open>for (j = 0; j < i; j++)\<close> of \<^verbatim>\<open>backsub\<close>, with
  \<^verbatim>\<open>sum = x[j][j]*x[j][i] + ... + x[j][i-1]*x[i-1][i]\<close> and \<^verbatim>\<open>x[j][i] = -sum * x[i][i]\<close>.
\<close>

definition backsub_col :: "'d arith \<Rightarrow> 'd list list \<Rightarrow> nat \<Rightarrow> 'd list list" where
  "backsub_col fp x i =
     fold (\<lambda>j x. mat_set x j i
             (fmul fp
                (fneg fp (fold (\<lambda>k sum. fadd fp sum (fmul fp (x ! j ! k) (x ! k ! i))) [j..<i]
                            (fconst fp 0)))
                (x ! i ! i)))
       [0..<i] x"

function backsub_loop ::
  "'d arith \<Rightarrow> nat \<Rightarrow> nat \<Rightarrow> 'd list list \<Rightarrow> int \<times> 'd list list" where
  "backsub_loop fp i order x =
     (if i < order then
        (if feq fp (x ! i ! i) (fconst fp 0) then (1, x)
         else backsub_loop fp (Suc i) order
                (backsub_col fp (mat_set x i i (fdiv fp (fconst fp 1) (x ! i ! i))) i))
      else (0, x))"
  by pat_completeness auto
termination
  by (relation "measure (\<lambda>(fp, i, order, x). order - i)") auto

declare backsub_loop.simps [simp del]

text \<open>
  \<^verbatim>\<open>backsub\<close> starts with \<^verbatim>\<open>if (x[0][0] == 0) return 1;\<close> before it looks at \<open>order\<close>. On a
  matrix without rows (order 0) this reads outside the matrix, and the routine has no
  result: \<open>None\<close>.
\<close>

definition backsub :: "'d arith \<Rightarrow> 'd list list \<Rightarrow> nat \<Rightarrow> (int \<times> 'd list list) option" where
  "backsub fp x order =
     (if x = [] \<or> x ! 0 = [] then None
      else if feq fp (x ! 0 ! 0) (fconst fp 0) then Some (1, x)
      else Some (backsub_loop fp 1 order
                   (mat_set x 0 0 (fdiv fp (fconst fp 1) (x ! 0 ! 0)))))"

subsection \<open>trimult\<close>

text \<open>
  \<^verbatim>\<open>trimult(in, out, order)\<close> assigns every entry \<^verbatim>\<open>out[i][j]\<close> with \<open>i, j < order\<close>, so the
  matrix it leaves in \<open>out\<close> does not depend on what \<open>out\<close> held; it always returns 0.
\<close>

definition trimult :: "'d arith \<Rightarrow> 'd list list \<Rightarrow> nat \<Rightarrow> int \<times> 'd list list" where
  "trimult fp inp order =
     (0, map (\<lambda>i. map (\<lambda>j. fold (\<lambda>k sum. fadd fp sum (fmul fp (inp ! i ! k) (inp ! j ! k)))
                              [(if i > j then i else j)..<order] (fconst fp 0))
                      [0..<order])
             [0..<order])"

section \<open>The Newton-Raphson estimator (mlelr.c)\<close>

text \<open>
  The functions of the GNU Scientific Library that the estimator calls are parameters of
  the model, like the arithmetic.
\<close>

record 'd gsl =
  gsl_sf_lngamma :: "'d \<Rightarrow> 'd"
  gsl_cdf_chisq_P :: "'d \<Rightarrow> 'd \<Rightarrow> 'd"

subsection \<open>One iteration: newton\_raphson\<close>

text \<open>
  \<^verbatim>\<open>for (k = 0; k < K; k++) sum1 += X[i][k] * beta0[jj++];\<close> from \<^verbatim>\<open>sum1 = 0\<close>: the sum and
  the running index \<open>jj\<close>.
\<close>

definition nr_linpred ::
  "'d arith \<Rightarrow> 'd list list \<Rightarrow> 'd list \<Rightarrow> nat \<Rightarrow> nat \<Rightarrow> nat \<Rightarrow> 'd \<times> nat" where
  "nr_linpred fp X beta0 K i jj =
     fold (\<lambda>k (sum1, jj). (fadd fp sum1 (fmul fp (X ! i ! k) (beta0 ! jj)), Suc jj)) [0..<K]
       (fconst fp 0, jj)"

text \<open>
  The loop \<^verbatim>\<open>for (j = 0; j < J - 1; j++)\<close> computing \<^verbatim>\<open>numer[j] = exp(sum1)\<close> and
  \<^verbatim>\<open>denom += numer[j]\<close> for population \<open>i\<close>, from \<^verbatim>\<open>denom = 1.0\<close>; \<^verbatim>\<open>numer[0], numer[1], ...\<close>
  are written in this order.
\<close>

definition nr_numer ::
  "'d arith \<Rightarrow> 'd list list \<Rightarrow> 'd list \<Rightarrow> nat \<Rightarrow> nat \<Rightarrow> nat \<Rightarrow> 'd list \<times> 'd" where
  "nr_numer fp X beta0 J K i =
     (case fold (\<lambda>j (numer, denom, jj).
                   case nr_linpred fp X beta0 K i jj of
                     (sum1, jj') \<Rightarrow>
                       (numer @ [fexp fp sum1], fadd fp denom (fexp fp sum1), jj'))
             [0..<J - 1] ([], fconst fp 1, 0)
      of (numer, denom, jj) \<Rightarrow> (numer, denom))"

text \<open>Row \<open>i\<close> of \<open>pi\<close>: \<^verbatim>\<open>numer[j] / denom\<close> for \<open>j < J - 1\<close>, then \<^verbatim>\<open>1.0 / denom\<close>.\<close>

definition nr_pi :: "'d arith \<Rightarrow> 'd list list \<Rightarrow> 'd list \<Rightarrow> nat \<Rightarrow> nat \<Rightarrow> nat \<Rightarrow> 'd list" where
  "nr_pi fp X beta0 J K i =
     (case nr_numer fp X beta0 J K i of
        (numer, denom) \<Rightarrow>
          map (\<lambda>j. fdiv fp (numer ! j) denom) [0..<J - 1] @ [fdiv fp (fconst fp 1) denom])"

text \<open>
  \<^verbatim>\<open>loglike[0] += gsl_sf_lngamma(n[i] + 1)\<close>, then for every \<open>j < J\<close>
  \<^verbatim>\<open>loglike[0] = loglike[0] - gsl_sf_lngamma(Y[i][j] + 1) + Y[i][j] * log(pi[i][j])\<close>.
\<close>

definition nr_loglike ::
  "'d arith \<Rightarrow> 'd gsl \<Rightarrow> 'd list list \<Rightarrow> 'd list \<Rightarrow> nat \<Rightarrow> nat \<Rightarrow> 'd list \<Rightarrow> 'd \<Rightarrow> 'd" where
  "nr_loglike fp g Y n J i pi_i loglike =
     fold (\<lambda>j ll. fadd fp (fsub fp ll (gsl_sf_lngamma g (fadd fp (Y ! i ! j) (fconst fp 1))))
                     (fmul fp (Y ! i ! j) (flog fp (pi_i ! j))))
       [0..<J]
       (fadd fp loglike (gsl_sf_lngamma g (fadd fp (n ! i) (fconst fp 1))))"

text \<open>
  For every \<open>j < J\<close>, \<^verbatim>\<open>deviance[0] += devtmp\<close> where \<open>devtmp\<close> is
  \<^verbatim>\<open>2 * Y[i][j] * log(Y[i][j] / (n[i] * pi[i][j]))\<close> if \<^verbatim>\<open>Y[i][j] > 0\<close> and \<^verbatim>\<open>0\<close> otherwise.
\<close>

definition nr_deviance ::
  "'d arith \<Rightarrow> 'd list list \<Rightarrow> 'd list \<Rightarrow> nat \<Rightarrow> nat \<Rightarrow> 'd list \<Rightarrow> 'd \<Rightarrow> 'd" where
  "nr_deviance fp Y n J i pi_i deviance =
     fold (\<lambda>j d. fadd fp d
                    (if fgt fp (Y ! i ! j) (fconst fp 0)
                     then fmul fp (fmul fp (fconst fp 2) (Y ! i ! j))
                            (flog fp (fdiv fp (Y ! i ! j) (fmul fp (n ! i) (pi_i ! j))))
                     else fconst fp 0))
       [0..<J] deviance"

text \<open>\<^verbatim>\<open>H[jj][kk] += v; H[kk][jj] = H[jj][kk];\<close>\<close>

definition hess_add :: "'d arith \<Rightarrow> 'd list list \<Rightarrow> nat \<Rightarrow> nat \<Rightarrow> 'd \<Rightarrow> 'd list list" where
  "hess_add fp H jj kk v =
     (let H1 = mat_set H jj kk (fadd fp (H ! jj ! kk) v) in mat_set H1 kk jj (H1 ! jj ! kk))"

text \<open>
  The body of \<^verbatim>\<open>for (k = 0; k < K; k++)\<close> in the derivative loop, for population \<open>i\<close>,
  response \<open>j\<close> and column \<open>k\<close>: the state is \<open>(g, H, jj)\<close>; \<open>kk\<close> starts at \<open>jj - 1\<close> and is
  incremented before each use. The increments are \<^verbatim>\<open>g[jj] += q1 * X[i][k]\<close>,
  \<^verbatim>\<open>H[jj][kk] += w1 * X[i][k] * X[i][kprime]\<close> and, with
  \<^verbatim>\<open>w2 = -n[i] * pi[i][j] * pi[i][jprime]\<close>, \<^verbatim>\<open>H[jj][kk] += w2 * X[i][k] * X[i][kprime]\<close>.
\<close>

definition nr_deriv_k ::
  "'d arith \<Rightarrow> 'd list list \<Rightarrow> 'd list \<Rightarrow> nat \<Rightarrow> nat \<Rightarrow> nat \<Rightarrow> 'd list \<Rightarrow> nat \<Rightarrow> 'd \<Rightarrow> 'd \<Rightarrow> nat
     \<Rightarrow> 'd list \<times> 'd list list \<times> nat \<Rightarrow> 'd list \<times> 'd list list \<times> nat" where
  "nr_deriv_k fp X n J K i pi_i j q1 w1 k = (\<lambda>(g, H, jj).
     let g1 = g[jj := fadd fp (g ! jj) (fmul fp q1 (X ! i ! k))];
         kk0 = int jj - 1;
         (H1, kk1) = fold (\<lambda>kprime (H, kk).
                             (hess_add fp H jj (nat (kk + 1))
                                (fmul fp (fmul fp w1 (X ! i ! k)) (X ! i ! kprime)), kk + 1))
                       [k..<K] (H, kk0);
         (H2, kk2) = fold (\<lambda>jprime (H, kk).
                             let w2 = fmul fp (fmul fp (fneg fp (n ! i)) (pi_i ! j))
                                        (pi_i ! jprime) in
                             fold (\<lambda>kprime (H, kk).
                                     (hess_add fp H jj (nat (kk + 1))
                                        (fmul fp (fmul fp w2 (X ! i ! k)) (X ! i ! kprime)),
                                      kk + 1))
                               [0..<K] (H, kk))
                       [Suc j..<J - 1] (H1, kk1)
     in (g1, H2, Suc jj))"

text \<open>
  The loop \<^verbatim>\<open>for (j = 0, jj = 0; j < J - 1; j++)\<close> for population \<open>i\<close>, with
  \<^verbatim>\<open>q1 = Y[i][j] - n[i] * pi[i][j]\<close> and \<^verbatim>\<open>w1 = n[i] * pi[i][j] * (1 - pi[i][j])\<close>.
\<close>

definition nr_deriv ::
  "'d arith \<Rightarrow> 'd list list \<Rightarrow> 'd list list \<Rightarrow> 'd list \<Rightarrow> nat \<Rightarrow> nat \<Rightarrow> nat \<Rightarrow> 'd list
     \<Rightarrow> 'd list \<times> 'd list list \<Rightarrow> 'd list \<times> 'd list list" where
  "nr_deriv fp X Y n J K i pi_i = (\<lambda>(g, H).
     case fold (\<lambda>j (g, H, jj).
                  let q1 = fsub fp (Y ! i ! j) (fmul fp (n ! i) (pi_i ! j));
                      w1 = fmul fp (fmul fp (n ! i) (pi_i ! j))
                             (fsub fp (fconst fp 1) (pi_i ! j))
                  in fold (nr_deriv_k fp X n J K i pi_i j q1 w1) [0..<K] (g, H, jj))
            [0..<J - 1] (g, H, 0)
     of (g', H', jj) \<Rightarrow> (g', H'))"

text \<open>
  The main loop over the populations, from \<^verbatim>\<open>g = 0\<close>, \<^verbatim>\<open>H = 0\<close>, \<^verbatim>\<open>loglike[0] = 0\<close> and
  \<^verbatim>\<open>deviance[0] = 0\<close>.
\<close>

definition nr_accumulate ::
  "'d arith \<Rightarrow> 'd gsl \<Rightarrow> 'd list list \<Rightarrow> 'd list list \<Rightarrow> 'd list \<Rightarrow> nat \<Rightarrow> nat \<Rightarrow> nat \<Rightarrow> 'd list
     \<Rightarrow> 'd list \<times> 'd list list \<times> 'd \<times> 'd" where
  "nr_accumulate fp gs X Y n J N K beta0 =
     fold (\<lambda>i (g, H, loglike, deviance).
             let pi_i = nr_pi fp X beta0 J K i;
                 (g', H') = nr_deriv fp X Y n J K i pi_i (g, H)
             in (g', H', nr_loglike fp gs Y n J i pi_i loglike,
                 nr_deviance fp Y n J i pi_i deviance))
       [0..<N]
       (replicate (K * (J - 1)) (fconst fp 0),
        replicate (K * (J - 1)) (replicate (K * (J - 1)) (fconst fp 0)),
        fconst fp 0, fconst fp 0)"

text \<open>\<^verbatim>\<open>g[i] += H[i][0] * beta0[0] + ... \<close> for every \<open>i < order\<close>.\<close>

definition nr_rhs :: "'d arith \<Rightarrow> 'd list \<Rightarrow> 'd list list \<Rightarrow> 'd list \<Rightarrow> nat \<Rightarrow> 'd list" where
  "nr_rhs fp g H beta0 order =
     fold (\<lambda>i g. g[i := fadd fp (g ! i)
                          (fold (\<lambda>j sum1. fadd fp sum1 (fmul fp (H ! i ! j) (beta0 ! j)))
                             [0..<order] (fconst fp 0))])
       [0..<order] g"

text \<open>\<^verbatim>\<open>beta1[i] = xtwx[i][0] * g[0] + ...\<close> for every \<open>i < order\<close>.\<close>

definition nr_solve :: "'d arith \<Rightarrow> 'd list list \<Rightarrow> 'd list \<Rightarrow> 'd list \<Rightarrow> nat \<Rightarrow> 'd list" where
  "nr_solve fp xtwx g beta1 order =
     fold (\<lambda>i b. b[i := fold (\<lambda>j sum1. fadd fp sum1 (fmul fp (xtwx ! i ! j) (g ! j)))
                          [0..<order] (fconst fp 0)])
       [0..<order] beta1"

text \<open>The Hessian handed to the inversion.\<close>

definition nr_hessian ::
  "'d arith \<Rightarrow> 'd gsl \<Rightarrow> 'd list list \<Rightarrow> 'd list list \<Rightarrow> 'd list \<Rightarrow> nat \<Rightarrow> nat \<Rightarrow> nat \<Rightarrow> 'd list
     \<Rightarrow> 'd list list" where
  "nr_hessian fp gs X Y n J N K beta0 =
     (case nr_accumulate fp gs X Y n J N K beta0 of (g, H, loglike, deviance) \<Rightarrow> H)"

text \<open>
  \<^verbatim>\<open>newton_raphson\<close>. The arrays \<open>beta1\<close> and \<open>xtwx\<close> belong to the caller and are written
  in place, so their contents on entry are arguments and their contents on return are
  results; \<open>xtwx\<close> is \<open>None\<close> as long as the freshly allocated matrix has not been written.
  \<^verbatim>\<open>loglike[0]\<close> and \<^verbatim>\<open>deviance[0]\<close> are assigned before the inversion is attempted.
  The function has no result (\<open>None\<close>) where \<^verbatim>\<open>backsub\<close> has none.
\<close>

record 'd nr_result =
  res_ret :: int
  res_beta1 :: "'d list"
  res_xtwx :: "'d list list option"
  res_loglike :: 'd
  res_deviance :: 'd

definition newton_raphson ::
  "'d arith \<Rightarrow> 'd gsl \<Rightarrow> 'd list list \<Rightarrow> 'd list list \<Rightarrow> 'd list \<Rightarrow> nat \<Rightarrow> nat \<Rightarrow> nat \<Rightarrow> 'd list
     \<Rightarrow> 'd list \<Rightarrow> 'd list list option \<Rightarrow> 'd nr_result option" where
  "newton_raphson fp gs X Y n J N K beta0 beta1 xtwx =
     (case nr_accumulate fp gs X Y n J N K beta0 of
        (g, H, loglike, deviance) \<Rightarrow>
          let order = K * (J - 1);
              g1 = nr_rhs fp g H beta0 order;
              (c, H1) = cholesky fp H order
          in if c \<noteq> 0
             then Some \<lparr>res_ret = 11, res_beta1 = beta1, res_xtwx = xtwx,
                        res_loglike = loglike, res_deviance = deviance\<rparr>
             else
               (case backsub fp H1 order of
                  None \<Rightarrow> None
                | Some (b, H2) \<Rightarrow>
                    if b \<noteq> 0
                    then Some \<lparr>res_ret = 12, res_beta1 = beta1, res_xtwx = xtwx,
                               res_loglike = loglike, res_deviance = deviance\<rparr>
                    else
                      let (t, out) = trimult fp H2 order
                      in if t \<noteq> 0
                         then Some \<lparr>res_ret = 13, res_beta1 = beta1, res_xtwx = Some out,
                                    res_loglike = loglike, res_deviance = deviance\<rparr>
                         else Some \<lparr>res_ret = 0,
                                    res_beta1 = nr_solve fp out g1 beta1 order,
                                    res_xtwx = Some out,
                                    res_loglike = loglike, res_deviance = deviance\<rparr>))"

subsection \<open>Step 7: the Newton-Raphson loop of mlelr\<close>

text \<open>
  \<^verbatim>\<open>static const int MAX_ITER = 30;\<close> and \<^verbatim>\<open>static const double EPSILON = 1e-8;\<close>, the double
  that the constant \<^verbatim>\<open>1e-8\<close> denotes.
\<close>

definition MAX_ITER :: nat where
  "MAX_ITER = 30"

definition EPSILON :: "'d arith \<Rightarrow> 'd" where
  "EPSILON fp = fconst fp (1 / 10 ^ 8)"

text \<open>
  The convergence test: \<^verbatim>\<open>convergence = 1\<close>, then the loop over \<open>i < K * (J - 1)\<close> that
  sets \<^verbatim>\<open>convergence = 0\<close> and breaks at the first \<open>i\<close> with
  \<^verbatim>\<open>fabs(beta[i] - beta0[i]) > EPSILON * fabs(beta0[i])\<close>.
\<close>

definition convergence_test :: "'d arith \<Rightarrow> 'd list \<Rightarrow> 'd list \<Rightarrow> nat \<Rightarrow> bool" where
  "convergence_test fp b b0 order =
     (first_index (\<lambda>i. fgt fp (ffabs fp (fsub fp (b ! i) (b0 ! i)))
                          (fmul fp (EPSILON fp) (ffabs fp (b0 ! i))))
        [0..<order] = None)"

text \<open>
  The variables of the loop. \<open>convergence\<close> is the C \<^verbatim>\<open>int\<close> flag (1 is \<open>True\<close>).
  \<open>nrret\<close>, \<open>beta0\<close>, \<open>loglike\<close>, \<open>deviance\<close> and \<open>loglike0\<close> are assigned in the first pass
  before anything reads them, and the loop body runs at least once; \<open>nr_init\<close> gives them
  placeholder values. \<open>beta\<close> starts at \<^verbatim>\<open>0\<close>.
\<close>

record 'd nr_state =
  iter :: nat
  convergence :: bool
  nrret :: int
  beta :: "'d list"
  beta0 :: "'d list"
  xtwx :: "'d list list option"
  loglike :: 'd
  deviance :: 'd
  loglike0 :: 'd

definition nr_init :: "'d arith \<Rightarrow> nat \<Rightarrow> nat \<Rightarrow> 'd nr_state" where
  "nr_init fp J K =
     \<lparr>iter = 0, convergence = False, nrret = 0,
      beta = replicate (K * (J - 1)) (fconst fp 0),
      beta0 = replicate (K * (J - 1)) (fconst fp 0),
      xtwx = None, loglike = fconst fp 0, deviance = fconst fp 0, loglike0 = fconst fp 0\<rparr>"

text \<open>
  The body of \<^verbatim>\<open>while (iter < MAX_ITER && !convergence)\<close>: save \<open>beta\<close> in \<open>beta0\<close>, run
  \<^verbatim>\<open>newton_raphson\<close> with \<open>beta\<close> as its output array, test for convergence, record the
  first log-likelihood, increment \<open>iter\<close>. The return value \<open>nrret\<close> is stored and not
  examined. The pass has no result (\<open>None\<close>) where \<^verbatim>\<open>newton_raphson\<close> has none.
\<close>

definition nr_iterate ::
  "'d arith \<Rightarrow> 'd gsl \<Rightarrow> 'd list list \<Rightarrow> 'd list list \<Rightarrow> 'd list \<Rightarrow> nat \<Rightarrow> nat \<Rightarrow> nat
     \<Rightarrow> 'd nr_state \<Rightarrow> 'd nr_state option" where
  "nr_iterate fp gs X Y n J N K st =
     (let b0 = beta st in
      case newton_raphson fp gs X Y n J N K b0 (beta st) (xtwx st) of
        None \<Rightarrow> None
      | Some r \<Rightarrow>
          Some (st\<lparr>beta0 := b0, nrret := res_ret r, beta := res_beta1 r, xtwx := res_xtwx r,
                   loglike := res_loglike r, deviance := res_deviance r,
                   convergence := convergence_test fp (res_beta1 r) b0 (K * (J - 1)),
                   loglike0 := (if iter st = 0 then res_loglike r else loglike0 st),
                   iter := Suc (iter st)\<rparr>))"

function nr_loop ::
  "'d arith \<Rightarrow> 'd gsl \<Rightarrow> 'd list list \<Rightarrow> 'd list list \<Rightarrow> 'd list \<Rightarrow> nat \<Rightarrow> nat \<Rightarrow> nat
     \<Rightarrow> 'd nr_state \<Rightarrow> 'd nr_state option" where
  "nr_loop fp gs X Y n J N K st =
     (if iter st < MAX_ITER \<and> \<not> convergence st
      then (case nr_iterate fp gs X Y n J N K st of
              None \<Rightarrow> None
            | Some st' \<Rightarrow> nr_loop fp gs X Y n J N K st')
      else Some st)"
  by pat_completeness auto
termination
  by (relation "measure (\<lambda>(fp, gs, X, Y, n, J, N, K, st). MAX_ITER - iter st)")
     (auto simp: nr_iterate_def Let_def split: option.splits)

declare nr_loop.simps [simp del]

definition nr_driver ::
  "'d arith \<Rightarrow> 'd gsl \<Rightarrow> 'd list list \<Rightarrow> 'd list list \<Rightarrow> 'd list \<Rightarrow> nat \<Rightarrow> nat \<Rightarrow> nat
     \<Rightarrow> 'd nr_state option" where
  "nr_driver fp gs X Y n J N K = nr_loop fp gs X Y n J N K (nr_init fp J K)"

text \<open>
  The state after \<open>k\<close> passes of the loop body from the state \<open>st\<close>, as long as every
  pass has a result. It serves to say how many passes the loop makes.
\<close>

primrec nr_passes ::
  "'d arith \<Rightarrow> 'd gsl \<Rightarrow> 'd list list \<Rightarrow> 'd list list \<Rightarrow> 'd list \<Rightarrow> nat \<Rightarrow> nat \<Rightarrow> nat
     \<Rightarrow> 'd nr_state \<Rightarrow> nat \<Rightarrow> 'd nr_state option" where
  "nr_passes fp gs X Y n J N K st 0 = Some st"
| "nr_passes fp gs X Y n J N K st (Suc k) =
     (case nr_passes fp gs X Y n J N K st k of
        None \<Rightarrow> None
      | Some s \<Rightarrow> nr_iterate fp gs X Y n J N K s)"

subsection \<open>Significance tests and report\<close>

text \<open>
  The block \<^verbatim>\<open>if (convergence) { ... }\<close> after the loop. \<open>df1\<close> and \<open>df2\<close> are \<^verbatim>\<open>int\<close>
  expressions stored in \<^verbatim>\<open>double\<close> variables. The per-parameter statistics read the
  diagonal of \<open>xtwx\<close>; where \<open>xtwx\<close> was never written they are indeterminate (\<open>None\<close>). A
  parameter whose diagonal entry fails \<^verbatim>\<open>xtwx[i][i] > 0\<close> gets significance \<open>-1\<close> and no
  standard error or Wald statistic.
\<close>

record 'd fit_tests =
  chi1 :: 'd
  df1 :: 'd
  chitest1 :: 'd
  chi2 :: 'd
  df2 :: 'd
  chitest2 :: 'd
  param_tests :: "('d option \<times> 'd option \<times> 'd) list option"

definition param_test ::
  "'d arith \<Rightarrow> 'd gsl \<Rightarrow> 'd list list \<Rightarrow> 'd list \<Rightarrow> nat \<Rightarrow> 'd option \<times> 'd option \<times> 'd" where
  "param_test fp gs xt b i =
     (if fgt fp (xt ! i ! i) (fconst fp 0)
      then (let stderr = fsqrt fp (xt ! i ! i);
                wald = fpow fp (fdiv fp (b ! i) stderr) (fconst fp 2)
            in (Some stderr, Some wald,
                fsub fp (fconst fp 1) (gsl_cdf_chisq_P gs wald (fconst fp 1))))
      else (None, None, fconst fp (- 1)))"

definition significance_tests ::
  "'d arith \<Rightarrow> 'd gsl \<Rightarrow> nat \<Rightarrow> nat \<Rightarrow> nat \<Rightarrow> 'd nr_state \<Rightarrow> 'd fit_tests option" where
  "significance_tests fp gs J N K st =
     (if convergence st then
        (let c1 = fmul fp (fconst fp 2) (fsub fp (loglike st) (loglike0 st));
             d1 = fconst fp (real_of_int (int K * (int J - 1) - int J - 1));
             c2 = deviance st;
             d2 = fconst fp (real_of_int (int N * (int J - 1) - int K * (int J - 1)))
         in Some \<lparr>chi1 = c1, df1 = d1,
                   chitest1 = fsub fp (fconst fp 1) (gsl_cdf_chisq_P gs c1 d1),
                   chi2 = c2, df2 = d2,
                   chitest2 = fsub fp (fconst fp 1) (gsl_cdf_chisq_P gs c2 d2),
                   param_tests =
                     map_option (\<lambda>xt. map (param_test fp gs xt (beta st)) [0..<K * (J - 1)])
                       (xtwx st)\<rparr>)
      else None)"

text \<open>
  The text printed after \<^verbatim>\<open>Convergence: \<close> in the report, and whether the block
  \<^verbatim>\<open>Model Fit Results\<close> is printed (\<^verbatim>\<open>if (convergence == 1)\<close>).
\<close>

definition report_convergence :: "'d nr_state \<Rightarrow> string" where
  "report_convergence st = ''Convergence: '' @ (if convergence st then ''YES'' else ''NO'')"

definition report_fit_results :: "'d nr_state \<Rightarrow> bool" where
  "report_fit_results st = convergence st"
section \<open>The frequency tabulator (tabulate.c, dataset.c)\<close>

subsection \<open>Searching and updating a table\<close>

text \<open>
  The table operations are written once for any type \<open>'d\<close> of cell values, with the C
  operators \<^verbatim>\<open>==\<close> and \<^verbatim>\<open>+\<close> on \<^verbatim>\<open>double\<close> as the parameters \<open>eq\<close> and \<open>add\<close>. The
  arithmetic development instantiates them with equality and addition of real numbers;
  the development on bit patterns instantiates \<open>eq\<close> with the IEEE 754 comparison.

  \<open>freq_search\<close> is the search loop of \<^verbatim>\<open>tabulate\<close> (and of \<^verbatim>\<open>frequency_table\<close>) over the
  rows of one frequency table: the index \<open>k\<close> at which \<^verbatim>\<open>target == obs[k][0]\<close> breaks the
  loop, or \<open>None\<close> for \<^verbatim>\<open>found = 0\<close>.
\<close>

definition freq_search :: "('d \<Rightarrow> 'd \<Rightarrow> bool) \<Rightarrow> 'd \<Rightarrow> 'd list list \<Rightarrow> nat option" where
  "freq_search eq target tbl = first_index (\<lambda>row. eq target (row ! 0)) tbl"

text \<open>
  The update that follows the search: a new row \<^verbatim>\<open>{target, weight}\<close> appended by
  \<^verbatim>\<open>add_observation\<close> when the value was not found, \<^verbatim>\<open>obs[k][1] += weight\<close> otherwise.
\<close>

definition freq_add ::
  "('d \<Rightarrow> 'd \<Rightarrow> bool) \<Rightarrow> ('d \<Rightarrow> 'd \<Rightarrow> 'd) \<Rightarrow> 'd list list \<Rightarrow> 'd \<Rightarrow> 'd \<Rightarrow> 'd list list" where
  "freq_add eq add tbl target weight =
     (case freq_search eq target tbl of
        None \<Rightarrow> tbl @ [[target, weight]]
      | Some k \<Rightarrow> tbl[k := (tbl ! k)[1 := add (tbl ! k ! 1) weight]])"

text \<open>
  \<^verbatim>\<open>find_observation(ds, obs, n_vars)\<close>: the first row \<open>i\<close> for which the loop over
  \<open>j < n_vars\<close> finds no \<open>j\<close> with \<^verbatim>\<open>obs[j] != ds->obs[i][j]\<close>; \<open>None\<close> for the result \<open>-1\<close>.
  On doubles \<^verbatim>\<open>a != b\<close> is the negation of \<^verbatim>\<open>a == b\<close>.
\<close>

definition find_observation ::
  "('d \<Rightarrow> 'd \<Rightarrow> bool) \<Rightarrow> 'd list list \<Rightarrow> 'd list \<Rightarrow> nat \<Rightarrow> nat option" where
  "find_observation eq tbl obs n_vars =
     first_index (\<lambda>row. first_index (\<lambda>j. \<not> eq (obs ! j) (row ! j)) [0..<n_vars] = None) tbl"

text \<open>
  The crosstab update of \<^verbatim>\<open>tabulate\<close>: \<open>obs\<close> holds the \<open>1 + nv\<close> values of the model
  variables (\<open>nv\<close> is \<^verbatim>\<open>mod->numiv\<close>); a new row gets the weight as its last cell, an existing row has the weight
  added to its cell \<open>1 + numiv\<close>.
\<close>

definition xtab_add ::
  "('d \<Rightarrow> 'd \<Rightarrow> bool) \<Rightarrow> ('d \<Rightarrow> 'd \<Rightarrow> 'd) \<Rightarrow> 'd list list \<Rightarrow> 'd list \<Rightarrow> nat \<Rightarrow> 'd
     \<Rightarrow> 'd list list" where
  "xtab_add eq add tbl obs nv weight =
     (case find_observation eq tbl obs (1 + nv) of
        None \<Rightarrow> tbl @ [obs @ [weight]]
      | Some found \<Rightarrow>
          tbl[found := (tbl ! found)[1 + nv := add (tbl ! found ! (1 + nv)) weight]])"

subsection \<open>The comparison of doubles on bit patterns\<close>

text \<open>
  A \<^verbatim>\<open>double\<close> as its 64-bit pattern: sign bit 63, exponent bits 62 to 52, fraction bits
  51 to 0. The C operator \<^verbatim>\<open>==\<close> on doubles is the IEEE 754 comparison: a NaN (exponent
  all ones, fraction not zero) is equal to nothing, the two zeros (all bits but the sign
  zero) are equal to each other, and otherwise two doubles are equal when their patterns
  are.
\<close>

type_synonym double_bits = "64 word"

definition is_nan :: "double_bits \<Rightarrow> bool" where
  "is_nan w = (drop_bit 52 w AND 0x7FF = 0x7FF \<and> w AND 0xFFFFFFFFFFFFF \<noteq> 0)"

definition is_zero :: "double_bits \<Rightarrow> bool" where
  "is_zero w = (w AND 0x7FFFFFFFFFFFFFFF = 0)"

definition double_eq :: "double_bits \<Rightarrow> double_bits \<Rightarrow> bool" where
  "double_eq a b = (\<not> is_nan a \<and> \<not> is_nan b \<and> (a = b \<or> (is_zero a \<and> is_zero b)))"

subsection \<open>Sorting a table\<close>

text \<open>
  \<^verbatim>\<open>compare_obs\<close> with \<^verbatim>\<open>sort_columns\<close> set: \<open>i\<close> is the first column below
  \<open>sort_columns\<close> where the rows differ, or \<open>sort_columns\<close> itself; the result is
  \<^verbatim>\<open>(a[i] > b[i]) - (a[i] < b[i])\<close>.
\<close>

definition compare_obs :: "nat \<Rightarrow> real list \<Rightarrow> real list \<Rightarrow> int" where
  "compare_obs sort_columns a b =
     (let i = (case first_index (\<lambda>i. \<not> a ! i = b ! i) [0..<sort_columns] of
                 None \<Rightarrow> sort_columns | Some i \<Rightarrow> i)
      in (if a ! i > b ! i then 1 else 0) - (if a ! i < b ! i then 1 else 0))"

text \<open>
  Modelled from the specification of the C library: \<^verbatim>\<open>qsort\<close> is not part of the
  repository. It sorts the array into ascending order according to the comparison
  function, and leaves the order of elements that compare equal unspecified. The model
  is insertion sort.
\<close>

fun qsort_insert :: "('a \<Rightarrow> 'a \<Rightarrow> int) \<Rightarrow> 'a \<Rightarrow> 'a list \<Rightarrow> 'a list" where
  "qsort_insert cmp a [] = [a]"
| "qsort_insert cmp a (b # bs) =
     (if cmp a b \<le> 0 then a # b # bs else b # qsort_insert cmp a bs)"

definition qsort :: "('a \<Rightarrow> 'a \<Rightarrow> int) \<Rightarrow> 'a list \<Rightarrow> 'a list" where
  "qsort cmp xs = foldr (qsort_insert cmp) xs []"

definition sort_dataset :: "real list list \<Rightarrow> nat \<Rightarrow> real list list" where
  "sort_dataset rows n_cols = qsort (compare_obs n_cols) rows"

subsection \<open>tabulate\<close>

text \<open>\<^verbatim>\<open>weight = (ds->weight == -1) ? 1.0 : ds->obs[i][ds->weight]\<close>\<close>

definition obs_weight :: "dataset \<Rightarrow> real list \<Rightarrow> real" where
  "obs_weight ds row = (case ds_weight ds of None \<Rightarrow> 1 | Some w \<Rightarrow> row ! w)"

text \<open>The target value of model variable \<open>j\<close>: a main effect for \<open>j < numiv\<close>, else the
  dependent variable.\<close>

definition obs_target :: "model \<Rightarrow> real list \<Rightarrow> nat \<Rightarrow> real" where
  "obs_target m row j = (if j < numiv m then row ! (iv m ! j) else row ! dv m)"

text \<open>
  The body of the loop over the observations. The state is the list of the \<open>1 + numiv\<close>
  frequency tables and the crosstab, each as its list of rows. The loop over \<open>j\<close> updates
  table \<open>j\<close> only, so the tables after it are given table by table.
\<close>

definition tabulate_obs ::
  "dataset \<Rightarrow> model \<Rightarrow> real list \<Rightarrow> real list list list \<times> real list list
     \<Rightarrow> real list list list \<times> real list list" where
  "tabulate_obs ds m row = (\<lambda>(fr, xt).
     let weight = obs_weight ds row in
     if weight > 0 then
       (let obs = map (obs_target m row) [0..<Suc (numiv m)]
        in (map (\<lambda>j. freq_add (=) (+) (fr ! j) (obs ! j) weight) [0..<Suc (numiv m)],
            xtab_add (=) (+) xt obs (numiv m) weight))
     else (fr, xt))"

definition tabulate_scan :: "dataset \<Rightarrow> model \<Rightarrow> real list list list \<times> real list list" where
  "tabulate_scan ds m = fold (tabulate_obs ds m) (ds_obs ds) (replicate (Suc (numiv m)) [], [])"

text \<open>
  \<^verbatim>\<open>tabulate\<close> stores the sorted tables in the model: the frequency tables sorted on their
  first column, the crosstab on its first \<open>1 + numiv\<close> columns.
\<close>

definition tabulate :: "dataset \<Rightarrow> model \<Rightarrow> model" where
  "tabulate ds m =
     (case tabulate_scan ds m of
        (fr, xt) \<Rightarrow>
          m\<lparr>xtab := \<lparr>ds_nvars = 2 + numiv m,
                     ds_varnames = map (\<lambda>i. ivnames m ! i) [0..<numiv m] @ [dvname m, ''_Count''],
                     ds_obs = sort_dataset xt (1 + numiv m), ds_weight = None\<rparr>,
            freqs := map (\<lambda>rows. \<lparr>ds_nvars = 2, ds_varnames = [''Value'', ''Freq''],
                                  ds_obs = sort_dataset rows 1, ds_weight = None\<rparr>) fr\<rparr>)"

section \<open>The design builder (mlelr.c, steps 2 to 6)\<close>

subsection \<open>Step 3: the number of columns of X\<close>

text \<open>
  The first loop of step 3, \<^verbatim>\<open>for (i = 0, K = 1; i < mod->numiv; i++)\<close>: one column for
  a direct effect, \<^verbatim>\<open>freqs[i]->n - 1\<close> columns otherwise.
\<close>

definition count_K_main :: "model \<Rightarrow> int" where
  "count_K_main m =
     fold (\<lambda>i K. if direct m ! i then K + 1 else K + (freq_n m i - 1)) [0..<numiv m] 1"

text \<open>
  The inner loop over the terms of interaction \<open>i\<close>, starting from \<^verbatim>\<open>k = 1\<close>:
  \<^verbatim>\<open>if (!mod->direct[mod->ints[i][j]]) k *= (mod->freqs[mod->ints[i][j]]->n - 1)\<close>.
\<close>

definition count_K_int :: "model \<Rightarrow> nat \<Rightarrow> int" where
  "count_K_int m i =
     fold (\<lambda>j k. if \<not> direct m ! nat (ints m ! i ! j)
                 then k * (freq_n m (nat (ints m ! i ! j)) - 1) else k)
       [0..<inttc m i] 1"

definition count_K :: "model \<Rightarrow> int" where
  "count_K m = fold (\<lambda>i K. K + count_K_int m i) [0..<numints m] (count_K_main m)"

text \<open>
  The column count of one main effect as the specification words it: 1 for a direct
  effect, \<open>L - 1\<close> for a categorical one with \<open>L\<close> rows in its frequency table.
\<close>

definition colcount :: "model \<Rightarrow> nat \<Rightarrow> int" where
  "colcount m t = (if direct m ! t then 1 else freq_n m t - 1)"

subsection \<open>Step 2: populations\<close>

text \<open>
  The inner loop of step 2: \<open>popchange\<close> is set when some covariate column \<open>j < ncov\<close> of
  the row differs from the row before it (\<^verbatim>\<open>xtab[i][j] != xtab[i-1][j]\<close>).
\<close>

definition popchange :: "real list \<Rightarrow> real list \<Rightarrow> nat \<Rightarrow> bool" where
  "popchange row prev ncov = (first_index (\<lambda>j. row ! j \<noteq> prev ! j) [0..<ncov] \<noteq> None)"

text \<open>
  The body of the loop \<^verbatim>\<open>for (i = 1; i < xtabrows; i++)\<close> on the state \<open>(N, popindex, M)\<close>.
\<close>

definition pop_step ::
  "real list list \<Rightarrow> nat \<Rightarrow> nat \<Rightarrow> nat \<times> nat list \<times> real \<Rightarrow> nat \<times> nat list \<times> real" where
  "pop_step xt xtabcols i = (\<lambda>(N, popindex, M).
     let N' = (if popchange (xt ! i) (xt ! (i - 1)) (xtabcols - 2) then N + 1 else N)
     in (N', popindex @ [N' - 1], M + xt ! i ! (xtabcols - 1)))"

text \<open>
  Step 2 as a whole: the number of populations \<open>N\<close>, the array \<open>popindex\<close> and the total
  \<open>M\<close>. The code starts from \<^verbatim>\<open>M = xtab[0][xtabcols - 1]\<close> and \<^verbatim>\<open>popindex[0] = 0\<close> without
  looking at \<open>xtabrows\<close>; with an empty crosstab that read is outside the table, and the
  model has no result (\<open>None\<close>).
\<close>

definition populations :: "real list list \<Rightarrow> nat \<Rightarrow> (nat \<times> nat list \<times> real) option" where
  "populations xt xtabcols =
     (if xt = [] then None
      else Some (fold (pop_step xt xtabcols) [1..<length xt] (1, [0], xt ! 0 ! (xtabcols - 1))))"

subsection \<open>Step 5: X, Y and n\<close>

text \<open>
  The columns of one independent variable \<open>j\<close> for the value \<open>v = xtab[i][j]\<close>, in the order
  in which \<^verbatim>\<open>X[xr][xc]\<close> is assigned: the value itself for a direct effect, otherwise one
  column for each \<open>k < levels - 1\<close>, where \<open>freq\<close> is the frequency table of the variable.
\<close>

definition encode_var :: "model \<Rightarrow> bool \<Rightarrow> nat \<Rightarrow> real \<Rightarrow> real list" where
  "encode_var m dummy j v =
     (if direct m ! j then [v]
      else
        let freq = ds_obs (freqs m ! j); levels = length freq
        in map (\<lambda>k. if v = freq ! k ! 0 then 1
                     else if \<not> dummy \<and> v = freq ! (levels - 1) ! 0 then - 1
                     else 0)
             [0..<levels - 1])"

text \<open>
  The row of X coded for a new population: the intercept in column 0, then the columns
  of the variables \<open>j < xtabcols - 2\<close>. These are the columns \<open>0 .. xc - 1\<close> of \<^verbatim>\<open>X[xr]\<close>; the
  columns of the interactions are assigned in step 6.
\<close>

definition encode_row :: "model \<Rightarrow> bool \<Rightarrow> nat \<Rightarrow> real list \<Rightarrow> real list" where
  "encode_row m dummy ncov row = 1 # concat (map (\<lambda>j. encode_var m dummy j (row ! j)) [0..<ncov])"

text \<open>
  The loop of step 5 over the rows of the crosstab, each paired with its \<open>popindex\<close>. The
  state is \<open>(lastpop, xr, X, Y, n)\<close>. The search for the response column runs over the
  rows of the frequency table of the dependent variable; when it finds none, \<open>j\<close> is \<open>J\<close>
  and \<^verbatim>\<open>Y[xr][j]\<close> is outside the row: the model has no result.
\<close>

fun design_loop ::
  "model \<Rightarrow> bool \<Rightarrow> nat \<Rightarrow> (real list \<times> nat) list
     \<Rightarrow> int \<times> nat \<times> matrix \<times> matrix \<times> real list
     \<Rightarrow> (int \<times> nat \<times> matrix \<times> matrix \<times> real list) option" where
  "design_loop m dummy xtabcols [] st = Some st"
| "design_loop m dummy xtabcols ((row, p) # rest) (lastpop, xr, X, Y, n) =
     (let (xr1, X1) = (if int p \<noteq> lastpop
                       then (p, X[p := encode_row m dummy (xtabcols - 2) row])
                       else (xr, X))
      in case first_index (\<lambda>f. row ! (xtabcols - 2) = f ! 0) (ds_obs (freqs m ! numiv m)) of
           None \<Rightarrow> None
         | Some j \<Rightarrow>
             let Y1 = mat_set Y xr1 j (row ! (xtabcols - 1));
                 n1 = n[xr1 := n ! xr1 + Y1 ! xr1 ! j]
             in design_loop m dummy xtabcols rest (int xr1, xr1, X1, Y1, n1))"

text \<open>
  What steps 1 to 5 of \<^verbatim>\<open>mlelr\<close> build. \<open>d_X\<close> holds for each population the columns
  assigned in step 5.
\<close>

record design =
  d_model :: model
  d_N :: nat
  d_popindex :: "nat list"
  d_M :: real
  d_J :: nat
  d_K :: int
  d_X :: matrix
  d_Y :: matrix
  d_n :: "real list"

text \<open>
  Steps 1 to 5. \<open>dummy\<close> is set when \<^verbatim>\<open>strcmp("dummy", get_option("params")) == 0\<close>; the
  code passes the result of \<^verbatim>\<open>get_option\<close> to \<^verbatim>\<open>strcmp\<close> unchecked, so a \<open>NULL\<close> there has
  no result in the model. \<open>Y\<close> and \<open>n\<close> are initialised to 0.
\<close>

definition mlelr_design :: "options \<Rightarrow> dataset \<Rightarrow> model \<Rightarrow> design option" where
  "mlelr_design opts ds m0 =
     (let m = tabulate ds m0;
          xt = ds_obs (xtab m);
          xtabcols = ds_nvars (xtab m);
          J = length (ds_obs (freqs m ! numiv m))
      in case populations xt xtabcols of
           None \<Rightarrow> None
         | Some (N, popindex, M) \<Rightarrow>
             (case get_option opts ''params'' of
                None \<Rightarrow> None
              | Some pv \<Rightarrow>
                  (case design_loop m (pv = ''dummy'') xtabcols (zip xt popindex)
                          (- 1, 0, replicate N [], replicate N (replicate J 0), replicate N 0) of
                     None \<Rightarrow> None
                   | Some (lastpop, xr, X, Y, n) \<Rightarrow>
                       Some \<lparr>d_model = m, d_N = N, d_popindex = popindex, d_M = M, d_J = J,
                             d_K = count_K m, d_X = X, d_Y = Y, d_n = n\<rparr>)))"

subsection \<open>Step 6: where the columns of a variable start\<close>

text \<open>
  The first loop of step 6 fills \<open>startcol\<close> and \<open>colspan\<close>: \<^verbatim>\<open>xc = 1\<close>, and for every
  \<open>i < xtabcols - 2\<close>, \<^verbatim>\<open>startcol[i] = xc\<close>, then \<open>xc\<close> grows by 1 for a direct effect and
  by \<^verbatim>\<open>freqs[i]->n - 1\<close> otherwise, and \<^verbatim>\<open>colspan[i] = xc - startcol[i]\<close>.
\<close>

definition startcol_loop :: "model \<Rightarrow> nat \<Rightarrow> int list \<times> int list \<times> int" where
  "startcol_loop m ncov =
     fold (\<lambda>i (startcol, colspan, xc).
             let xc' = (if direct m ! i then xc + 1 else xc + (freq_n m i - 1))
             in (startcol @ [xc], colspan @ [xc' - xc], xc'))
       [0..<ncov] ([], [], 1)"

definition startcol :: "model \<Rightarrow> nat \<Rightarrow> int list" where
  "startcol m ncov = fst (startcol_loop m ncov)"

definition colspan :: "model \<Rightarrow> nat \<Rightarrow> int list" where
  "colspan m ncov = fst (snd (startcol_loop m ncov))"

section \<open>Well-formed inputs and invariants used in the proofs\<close>

text \<open>
  The inputs \<^verbatim>\<open>mlelr\<close> is called with: every observation has \<open>nvars\<close> values, the variable
  indices of the model and the weight column are columns of the dataset, and \<open>direct\<close>
  has one flag for each main effect. \<^verbatim>\<open>cmd_logreg\<close> builds the model through
  \<^verbatim>\<open>add_model_variable\<close>, which keeps this.
\<close>

definition wf_input :: "dataset \<Rightarrow> model \<Rightarrow> bool" where
  "wf_input ds m =
     (list_all (\<lambda>row. length row = ds_nvars ds) (ds_obs ds)
      \<and> dv m < ds_nvars ds \<and> list_all (\<lambda>v. v < ds_nvars ds) (iv m)
      \<and> length (direct m) = length (iv m)
      \<and> (case ds_weight ds of None \<Rightarrow> True | Some w \<Rightarrow> w < ds_nvars ds))"

text \<open>
  The weight an observation contributes: its weight when that is positive, nothing
  otherwise.
\<close>

definition pos_weight :: "dataset \<Rightarrow> real list \<Rightarrow> real" where
  "pos_weight ds row = (if obs_weight ds row > 0 then obs_weight ds row else 0)"

text \<open>
  The invariant of the scan of \<^verbatim>\<open>tabulate\<close> over the observations, for the state \<open>(fr, xt)\<close>
  and the weight \<open>W\<close> accumulated so far: there are \<open>1 + numiv\<close> frequency tables, each with
  distinct keys; the crosstab rows have \<open>numiv + 2\<close> cells; every value in column \<open>j\<close> of
  the crosstab is a key of table \<open>j\<close>; the weights of the crosstab add up to \<open>W\<close>.
\<close>

definition tab_inv :: "nat \<Rightarrow> real list list list \<times> real list list \<Rightarrow> real \<Rightarrow> bool" where
  "tab_inv nv s W = (case s of (fr, xt) \<Rightarrow>
     length fr = Suc nv
     \<and> (\<forall>j<Suc nv. distinct (map (\<lambda>r. r ! 0) (fr ! j)))
     \<and> (\<forall>r \<in> set xt. length r = nv + 2)
     \<and> (\<forall>j<Suc nv. (\<lambda>r. r ! j) ` set xt \<subseteq> (\<lambda>r. r ! 0) ` set (fr ! j))
     \<and> (\<Sum>r\<leftarrow>xt. r ! (nv + 1)) = W)"

section \<open>Example inputs\<close>

definition example_model_3x4 :: model where
  "example_model_3x4 =
     \<lparr>dvname = ''y'', dv = 2, ivnames = [''a'', ''b''], iv = [0, 1],
      direct = [False, False], ints = [[0, 1]], intnames = [''a*b''],
      xtab = \<lparr>ds_nvars = 4, ds_varnames = [''a'', ''b'', ''y'', ''_Count''],
               ds_obs = [], ds_weight = None\<rparr>,
      freqs = [\<lparr>ds_nvars = 2, ds_varnames = [''Value'', ''Freq''],
                 ds_obs = [[1, 5], [2, 5], [3, 5]], ds_weight = None\<rparr>,
               \<lparr>ds_nvars = 2, ds_varnames = [''Value'', ''Freq''],
                 ds_obs = [[1, 4], [2, 4], [3, 4], [4, 3]], ds_weight = None\<rparr>,
               \<lparr>ds_nvars = 2, ds_varnames = [''Value'', ''Freq''],
                 ds_obs = [[0, 7], [1, 8]], ds_weight = None\<rparr>]\<rparr>"


text \<open>
  A dataset with the columns \<open>y\<close> and \<open>a\<close>, and the descriptor of \<^verbatim>\<open>logreg d y = a*...\<close>
  after the dependent variable has been added and before any effect has.
\<close>

definition ds_ya :: dataset where
  "ds_ya = \<lparr>ds_nvars = 2, ds_varnames = [''y'', ''a''],
            ds_obs = [[0, 1], [1, 2]], ds_weight = None\<rparr>"

definition model_dv_only :: model where
  "model_dv_only =
     \<lparr>dvname = ''y'', dv = 0, ivnames = [], iv = [], direct = [], ints = [], intnames = [],
      xtab = \<lparr>ds_nvars = 0, ds_varnames = [], ds_obs = [], ds_weight = None\<rparr>,
      freqs = []\<rparr>"

text \<open>
  A weighted dataset with the columns \<open>x\<close>, \<open>y\<close> and the weight \<open>w\<close>, one of whose three
  observations has a negative weight; the model \<open>y = x\<close> with \<open>x\<close> categorical; and the
  design that steps 1 to 5 build from them under the default options.
\<close>

definition ds_w :: dataset where
  "ds_w = \<lparr>ds_nvars = 3, ds_varnames = [''x'', ''y'', ''w''],
           ds_obs = [[1, 1, 30], [0, 0, 40], [0, 1, - 5]], ds_weight = Some 2\<rparr>"

definition m_w :: model where
  "m_w = \<lparr>dvname = ''y'', dv = 1, ivnames = [''x''], iv = [0], direct = [False],
          ints = [], intnames = [],
          xtab = \<lparr>ds_nvars = 0, ds_varnames = [], ds_obs = [], ds_weight = None\<rparr>,
          freqs = []\<rparr>"

definition design_w :: design where
  "design_w =
     \<lparr>d_model =
        m_w\<lparr>xtab := \<lparr>ds_nvars = 3, ds_varnames = [''x'', ''y'', ''_Count''],
                        ds_obs = [[0, 0, 40], [1, 1, 30]], ds_weight = None\<rparr>,
             freqs := [\<lparr>ds_nvars = 2, ds_varnames = [''Value'', ''Freq''],
                         ds_obs = [[0, 40], [1, 30]], ds_weight = None\<rparr>,
                       \<lparr>ds_nvars = 2, ds_varnames = [''Value'', ''Freq''],
                         ds_obs = [[0, 40], [1, 30]], ds_weight = None\<rparr>]\<rparr>,
      d_N = 2, d_popindex = [0, 1], d_M = 70, d_J = 2, d_K = 2,
      d_X = [[1, 1], [1, - 1]], d_Y = [[40, 0], [0, 30]], d_n = [40, 30]\<rparr>"

text \<open>The same columns with no observation of positive weight.\<close>

definition ds_nonpositive :: dataset where
  "ds_nonpositive = \<lparr>ds_nvars = 3, ds_varnames = [''x'', ''y'', ''w''],
           ds_obs = [[1, 1, 0], [0, 0, - 5]], ds_weight = Some 2\<rparr>"

text \<open>
  Two unweighted observations \<open>(x = 0, y = 0)\<close> and \<open>(x = 0, y = 1)\<close>, and the model
  \<^verbatim>\<open>y = direct.x\<close>: the covariate is 0 throughout.
\<close>

definition ds_zero :: dataset where
  "ds_zero = \<lparr>ds_nvars = 2, ds_varnames = [''x'', ''y''],
              ds_obs = [[0, 0], [0, 1]], ds_weight = None\<rparr>"

definition m_direct :: model where
  "m_direct = \<lparr>dvname = ''y'', dv = 1, ivnames = [''x''], iv = [0], direct = [True],
               ints = [], intnames = [],
               xtab = \<lparr>ds_nvars = 0, ds_varnames = [], ds_obs = [], ds_weight = None\<rparr>,
               freqs = []\<rparr>"


subsection \<open>Two arithmetics for evaluation\<close>

text \<open>
  Exact arithmetic on the real numbers: every constant denotes itself and no operation
  rounds or overflows. On an integer exponent \<^verbatim>\<open>pow\<close> is the integer power. A quotient by
  zero, the logarithm of a number that is not positive and the square root of a negative
  number have no real value, and the machine gives an infinity or NaN there; the
  functions of HOL are total and give them a conventional number. The evaluations in this
  arithmetic below meet none of these cases, and every comparison they make comes out as
  it does in binary floating point.
\<close>

definition exact_arith :: "real arith" where
  "exact_arith =
     \<lparr>fconst = (\<lambda>r. r), fadd = (+), fsub = (-), fmul = (*), fdiv = (/), fneg = uminus,
      fsqrt = sqrt, fexp = exp, flog = ln, ffabs = abs,
      fpow = (\<lambda>x y. if y = of_int \<lfloor>y\<rfloor> then x powi \<lfloor>y\<rfloor> else x powr y),
      feq = (=), fgt = (>), fge = (\<ge>), fle = (\<le>)\<rparr>"

text \<open>
  An arithmetic extended by NaN, written \<open>None\<close>, as IEEE 754 and C have it: an operation
  with a NaN operand yields NaN, except that \<^verbatim>\<open>pow(x, 0)\<close> and \<^verbatim>\<open>pow(1, y)\<close> are 1, and
  each of the comparisons \<^verbatim>\<open>==\<close>, \<^verbatim>\<open>>\<close>, \<^verbatim>\<open>>=\<close>, \<^verbatim>\<open><=\<close> with a NaN operand is false. On
  operands that are not NaN the operations are those of the arithmetic that is extended.
\<close>

definition nan1 :: "('d \<Rightarrow> 'd) \<Rightarrow> 'd option \<Rightarrow> 'd option" where
  "nan1 f a = (case a of None \<Rightarrow> None | Some x \<Rightarrow> Some (f x))"

definition nan2 :: "('d \<Rightarrow> 'd \<Rightarrow> 'd) \<Rightarrow> 'd option \<Rightarrow> 'd option \<Rightarrow> 'd option" where
  "nan2 f a b =
     (case a of None \<Rightarrow> None
      | Some x \<Rightarrow> (case b of None \<Rightarrow> None | Some y \<Rightarrow> Some (f x y)))"

definition nan_cmp :: "('d \<Rightarrow> 'd \<Rightarrow> bool) \<Rightarrow> 'd option \<Rightarrow> 'd option \<Rightarrow> bool" where
  "nan_cmp r a b =
     (case a of None \<Rightarrow> False
      | Some x \<Rightarrow> (case b of None \<Rightarrow> False | Some y \<Rightarrow> r x y))"

definition nan_pow :: "'d arith \<Rightarrow> 'd option \<Rightarrow> 'd option \<Rightarrow> 'd option" where
  "nan_pow fp a b =
     (case b of
        Some y \<Rightarrow>
          (case a of
             Some x \<Rightarrow> Some (fpow fp x y)
           | None \<Rightarrow> if feq fp y (fconst fp 0) then Some (fconst fp 1) else None)
      | None \<Rightarrow>
          (case a of
             Some x \<Rightarrow> if feq fp x (fconst fp 1) then Some (fconst fp 1) else None
           | None \<Rightarrow> None))"

definition with_nan :: "'d arith \<Rightarrow> 'd option arith" where
  "with_nan fp =
     \<lparr>fconst = (\<lambda>r. Some (fconst fp r)),
      fadd = nan2 (fadd fp), fsub = nan2 (fsub fp), fmul = nan2 (fmul fp),
      fdiv = nan2 (fdiv fp), fneg = nan1 (fneg fp),
      fsqrt = nan1 (fsqrt fp), fexp = nan1 (fexp fp), flog = nan1 (flog fp),
      ffabs = nan1 (ffabs fp), fpow = nan_pow fp,
      feq = nan_cmp (feq fp), fgt = nan_cmp (fgt fp), fge = nan_cmp (fge fp),
      fle = nan_cmp (fle fp)\<rparr>"
section \<open>Verified properties\<close>

subsection \<open>Properties of the option bag\<close>

lemma strncmp_prefix:
  "cstring s \<Longrightarrow> (strncmp k s (length s) = 0) = prefix s k"
proof (induction s arbitrary: k)
  case Nil
  then show ?case by simp
next
  case (Cons c s)
  have tl: "cstring s" and hd: "(of_char c :: nat) \<noteq> 0"
    using Cons.prems by (simp_all add: cstring_def)
  show ?case
  proof (cases k)
    case Nil
    then show ?thesis using hd by simp
  next
    case (Cons d k')
    then show ?thesis using Cons.IH [OF tl, of k'] by auto
  qed
qed

lemma get_option_find:
  "\<forall>p \<in> set opts. cstring (fst p) \<Longrightarrow>
   get_option opts k = map_option snd (find (\<lambda>p. prefix (fst p) k) opts)"
  by (induction opts) (auto simp: strncmp_prefix)

text \<open>
  Claim C9. \<^verbatim>\<open>get_option(k)\<close> needs no exact key match: it returns the value of the first
  stored option whose whole stored key is a prefix of the queried string, and \<open>NULL\<close> only
  when no stored key is a prefix of it. Consequently, when the first stored key that is a
  prefix of \<open>params\<close> is a proper prefix of it (it is stored before any entry named
  \<open>params\<close>), looking up \<open>params\<close> returns the value of that other option.
\<close>

theorem get_option_first_prefix:
  assumes "\<forall>p \<in> set opts. cstring (fst p)"
  shows "get_option opts k = map_option snd (find (\<lambda>p. prefix (fst p) k) opts)
    \<and> ((get_option opts k = None) = (\<forall>p \<in> set opts. \<not> prefix (fst p) k))
    \<and> (opts = before @ (s, v) # rest \<and> strict_prefix s ''params'' \<and>
         (\<forall>p \<in> set before. \<not> prefix (fst p) ''params'') \<longrightarrow>
         get_option opts ''params'' = Some v)"
proof (intro conjI impI)
  show main: "get_option opts k = map_option snd (find (\<lambda>p. prefix (fst p) k) opts)"
    using assms by (rule get_option_find)
  show "(get_option opts k = None) = (\<forall>p \<in> set opts. \<not> prefix (fst p) k)"
    by (auto simp: main find_None_iff)
next
  assume h: "opts = before @ (s, v) # rest \<and> strict_prefix s ''params'' \<and>
         (\<forall>p \<in> set before. \<not> prefix (fst p) ''params'')"
  then have split: "opts = before @ (s, v) # rest"
    and proper: "strict_prefix s ''params''"
    and first: "\<forall>p \<in> set before. \<not> prefix (fst p) ''params''"
    by simp_all
  have "find (\<lambda>p. prefix (fst p) ''params'') (before @ (s, v) # rest) = Some (s, v)"
    using proper first
    by (induction before) (auto simp: strict_prefix_def)
  then show "get_option opts ''params'' = Some v"
    using get_option_find [OF assms, of "''params''"] split by simp
qed

theorem get_option_first_prefix_witness:
  "get_option [(''par'', ''dummy''), (''params'', ''centerpoint'')] ''params'' = Some ''dummy''
   \<and> get_option [(''par'', ''dummy''), (''params'', ''centerpoint'')] ''pa'' = None"
proof -
  let ?opts = "[(''par'', ''dummy''), (''params'', ''centerpoint'')]"
  have cs: "\<forall>p \<in> set ?opts. cstring (fst p)"
    by (simp add: cstring_def)
  have sp: "strict_prefix ''par'' ''params''"
    by (simp add: strict_prefix_def)
  have a: "get_option ?opts ''params'' = Some ''dummy''"
    using get_option_first_prefix [OF cs, of "''params''" "[]" "''par''" "''dummy''"
        "[(''params'', ''centerpoint'')]"] sp
    by simp
  have c: "get_option ?opts ''pa'' = None"
    using get_option_first_prefix [OF cs, of "''pa''" "[]" "''par''" "''dummy''"
        "[(''params'', ''centerpoint'')]"] by simp
  show ?thesis using a c by simp
qed


subsection \<open>The column count K\<close>

lemma fold_add_upt:
  "fold (\<lambda>i (K::int). K + f i) [0..<n] K0 = K0 + (\<Sum>i<n. f i)"
  by (induction n) simp_all

lemma fold_mult_upt:
  "fold (\<lambda>j (k::int). k * f j) [0..<n] k0 = k0 * (\<Prod>j<n. f j)"
  by (induction n) simp_all

lemma count_K_main_sum:
  "count_K_main m = 1 + (\<Sum>i<numiv m. colcount m i)"
proof -
  have "(\<lambda>i (K::int). if direct m ! i then K + 1 else K + (freq_n m i - 1))
        = (\<lambda>i K. K + colcount m i)"
    by (auto simp: colcount_def fun_eq_iff)
  then show ?thesis
    by (simp add: count_K_main_def fold_add_upt)
qed

lemma count_K_int_prod:
  "count_K_int m i = (\<Prod>j<inttc m i. colcount m (nat (ints m ! i ! j)))"
proof -
  have "(\<lambda>j (k::int). if \<not> direct m ! nat (ints m ! i ! j)
                 then k * (freq_n m (nat (ints m ! i ! j)) - 1) else k)
        = (\<lambda>j k. k * colcount m (nat (ints m ! i ! j)))"
    by (auto simp: colcount_def fun_eq_iff)
  then show ?thesis
    by (simp add: count_K_int_def fold_mult_upt)
qed

text \<open>
  Claim C7. The number of design-matrix columns is 1 for the intercept, plus the column
  count of every main effect (1 if direct, \<open>L - 1\<close> if categorical with \<open>L\<close> levels in
  its frequency table), plus, for every interaction, the product of the column counts of
  its terms. In particular two interacting categorical variables with 3 and 4 levels
  give 12 columns.
\<close>

theorem count_K_formula:
  "count_K m = 1 + (\<Sum>i<numiv m. colcount m i)
                 + (\<Sum>i<numints m. \<Prod>j<inttc m i. colcount m (nat (ints m ! i ! j)))
   \<and> (direct m = [False, False] \<and> length (iv m) = 2 \<and> ints m = [[0, 1]] \<and>
        freq_n m 0 = 3 \<and> freq_n m 1 = 4 \<longrightarrow> count_K m = 12)"
proof -
  have formula: "count_K m = 1 + (\<Sum>i<numiv m. colcount m i)
                 + (\<Sum>i<numints m. \<Prod>j<inttc m i. colcount m (nat (ints m ! i ! j)))"
    by (simp add: count_K_def fold_add_upt count_K_main_sum count_K_int_prod)
  have "count_K m = 12"
    if h: "direct m = [False, False] \<and> length (iv m) = 2 \<and> ints m = [[0, 1]] \<and>
        freq_n m 0 = 3 \<and> freq_n m 1 = 4"
  proof -
    have two: "{..<2::nat} = {0, 1}" by auto
    have "(\<Sum>i<numiv m. colcount m i) = 5"
      using h by (simp add: numiv_def colcount_def two)
    moreover have "(\<Sum>i<numints m. \<Prod>j<inttc m i. colcount m (nat (ints m ! i ! j))) = 6"
      using h by (simp add: numints_def inttc_def colcount_def two)
    ultimately show ?thesis using formula by simp
  qed
  with formula show ?thesis by blast
qed

theorem count_K_formula_witness:
  "count_K example_model_3x4 = 12"
  using count_K_formula [of example_model_3x4]
  by (simp add: example_model_3x4_def freq_n_def)

subsection \<open>Interaction terms and main effects\<close>

lemma first_index_Some:
  "first_index P xs = Some i \<Longrightarrow> i < length xs \<and> P (xs ! i) \<and> (\<forall>j<i. \<not> P (xs ! j))"
proof (induction xs arbitrary: i)
  case Nil
  then show ?case by simp
next
  case (Cons x xs)
  show ?case
  proof (cases "P x")
    case True
    with Cons.prems show ?thesis by simp
  next
    case False
    with Cons.prems obtain i' where i': "first_index P xs = Some i'" "i = Suc i'"
      by auto
    from Cons.IH [OF i'(1)] False i'(2) show ?thesis
      by (auto simp: less_Suc_eq_0_disj)
  qed
qed

lemma first_index_None: "(first_index P xs = None) = (\<forall>x \<in> set xs. \<not> P x)"
  by (induction xs) auto

text \<open>
  When the variable named in an interaction is already a main effect, the term appended
  is the index found by the search, and the invariant is kept.
\<close>

lemma add_model_variable_found:
  assumes "find_varname ds varname = Some varidx"
    and "first_index (\<lambda>x. varidx = x) (iv m) = Some i"
  shows "add_model_variable ividx0 m ds varname NEW_INTERACTION
         = Some (0, m\<lparr>ints := ints m @ [[int i]], intnames := intnames m @ [varname]\<rparr>, [])"
  using assms by (simp add: add_model_variable_def)

text \<open>
  Claim C2 (not met by the code). A call with \<open>NEW_INTERACTION\<close> or \<open>INTERACTION\<close> naming a
  variable that is not yet a main effect appends the variable to the main-effect arrays
  with a warning, but the interaction term it appends is the value of the local
  \<^verbatim>\<open>ividx\<close>, which this path never assigns: for the descriptor of \<open>y = a*...\<close> the
  variable \<open>a\<close> becomes main effect 0 and the stored term is the indeterminate \<open>ividx0\<close>,
  which references a registered main effect only if it happens to be 0.
\<close>

theorem add_model_variable_unassigned_ividx:
  "add_model_variable ividx0 model_dv_only ds_ya ''a'' NEW_INTERACTION
     = Some (0, model_dv_only\<lparr>ivnames := [''a''], iv := [1], direct := [False],
                              ints := [[ividx0]], intnames := [''a'']\<rparr>,
             [''Warning: this interaction variable will also be added as a main effect: a''])
   \<and> ints_registered (model_dv_only\<lparr>ivnames := [''a''], iv := [1], direct := [False],
                              ints := [[ividx0]], intnames := [''a'']\<rparr>) = (ividx0 = 0)"
  by (auto simp: add_model_variable_def find_varname_def ds_ya_def model_dv_only_def
      add_main_effect_def ints_registered_def numiv_def)

theorem add_model_variable_unassigned_ividx_witness:
  "map_option (\<lambda>r. ints (fst (snd r)))
     (add_model_variable 7 model_dv_only ds_ya ''a'' NEW_INTERACTION) = Some [[7]]
   \<and> map_option (\<lambda>r. iv (fst (snd r)))
     (add_model_variable 7 model_dv_only ds_ya ''a'' NEW_INTERACTION) = Some [1]
   \<and> \<not> ints_registered (model_dv_only\<lparr>ivnames := [''a''], iv := [1], direct := [False],
                              ints := [[7]], intnames := [''a'']\<rparr>)"
  using add_model_variable_unassigned_ividx [of 7] by simp


subsection \<open>The Cholesky factorisation\<close>

lemma length_mat_set [simp]: "length (mat_set x i j v) = length x"
  by (simp add: mat_set_def)

lemma nth_mat_set:
  "mat_set x i j v ! a = (if a = i \<and> i < length x then (x ! i)[j := v] else x ! a)"
  by (cases "i < length x") (simp_all add: mat_set_def nth_list_update list_update_beyond)

lemma square_mat_set: "square n x \<Longrightarrow> square n (mat_set x i j v)"
  by (auto simp: square_def list_all_length nth_mat_set)

lemma fold_row_frame:
  "length (fold (\<lambda>j x. mat_set x i j (f x j)) js x) = length x
    \<and> (a \<noteq> i \<longrightarrow> fold (\<lambda>j x. mat_set x i j (f x j)) js x ! a = x ! a)
    \<and> length (fold (\<lambda>j x. mat_set x i j (f x j)) js x ! i) = length (x ! i)
    \<and> (b \<notin> set js \<longrightarrow> fold (\<lambda>j x. mat_set x i j (f x j)) js x ! i ! b = x ! i ! b)"
proof (induction js arbitrary: x)
  case Nil
  then show ?case by simp
next
  case (Cons j js)
  show ?case
    using Cons.IH [of "mat_set x i j (f x j)"]
    by (auto simp: nth_mat_set)
qed

lemma chol_row_frame:
  "length (chol_row fp x n i) = length x"
  "a \<noteq> i \<Longrightarrow> chol_row fp x n i ! a = x ! a"
  "length (chol_row fp x n i ! i) = length (x ! i)"
  "b \<le> i \<Longrightarrow> chol_row fp x n i ! i ! b = x ! i ! b"
  unfolding chol_row_def
  using fold_row_frame [of i "\<lambda>x j. fdiv fp (fsub fp (x ! i ! j) (chol_off_sum fp x i j)) (x ! i ! i)"
      "[Suc i..<n]" x a b]
  by auto

lemma square_chol_row: "square n x \<Longrightarrow> square n (chol_row fp x n i)"
  unfolding square_def list_all_length
  by (metis chol_row_frame(1) chol_row_frame(2) chol_row_frame(3))

lemma chol_loop_frame:
  assumes "chol_loop fp i n x = (ret, p, U)" and "square n x"
  shows "square n U \<and> i \<le> p \<and> (ret = 0 \<or> ret = 1) \<and> (ret = 0 \<longrightarrow> p = n \<or> n < i)
     \<and> (\<forall>a<i. U ! a = x ! a)
     \<and> (\<forall>a b. b < a \<longrightarrow> U ! a ! b = x ! a ! b)
     \<and> (ret = 1 \<longrightarrow> p < n \<and> (\<forall>a\<ge>p. U ! a = x ! a))"
  using assms
proof (induction fp i n x rule: chol_loop.induct)
  case (1 fp i n x)
  show ?case
  proof (cases "i < n")
    case False
    with "1.prems" show ?thesis by (auto simp: chol_loop.simps [of fp i n x])
  next
    case True
    note inrange = True
    show ?thesis
    proof (cases "fge fp (chol_diag_sum fp x i) (x ! i ! i)")
      case True
      with inrange "1.prems" show ?thesis by (auto simp: chol_loop.simps [of fp i n x])
    next
      case False
      define x1 where "x1 = mat_set x i i (fsqrt fp (fsub fp (x ! i ! i) (chol_diag_sum fp x i)))"
      define x2 where "x2 = chol_row fp x1 n i"
      have rec: "chol_loop fp (Suc i) n x2 = (ret, p, U)"
        using "1.prems"(1) inrange False
        by (simp add: chol_loop.simps [of fp i n x] x1_def x2_def Let_def)
      have sq2: "square n x2"
        using "1.prems"(2) by (simp add: x2_def x1_def square_chol_row square_mat_set)
      have IH: "square n U \<and> Suc i \<le> p \<and> (ret = 0 \<or> ret = 1) \<and> (ret = 0 \<longrightarrow> p = n \<or> n < Suc i)
         \<and> (\<forall>a<Suc i. U ! a = x2 ! a)
         \<and> (\<forall>a b. b < a \<longrightarrow> U ! a ! b = x2 ! a ! b)
         \<and> (ret = 1 \<longrightarrow> p < n \<and> (\<forall>a\<ge>p. U ! a = x2 ! a))"
        using "1.IH" [OF inrange refl _ rec [unfolded x2_def x1_def]] False sq2
        by (simp add: x1_def x2_def)
      have other: "x2 ! a = x ! a" if "a \<noteq> i" for a
        using that by (simp add: x2_def x1_def chol_row_frame nth_mat_set)
      have below: "x2 ! i ! b = x ! i ! b" if "b < i" for b
        using that by (simp add: x2_def x1_def chol_row_frame nth_mat_set)
      have low: "x2 ! a ! b = x ! a ! b" if "b < a" for a b
        using that other [of a] below [of b] by (cases "a = i") auto
      show ?thesis
        using IH other low inrange by auto
    qed
  qed
qed

text \<open>The values that the row loop writes, and the factor of the specification.\<close>

lemma chol_row_Suc:
  "chol_row fp x (Suc m) i =
     (if i < m then
        (let y = chol_row fp x m i
         in mat_set y i m (fdiv fp (fsub fp (y ! i ! m) (chol_off_sum fp y i m)) (y ! i ! i)))
      else chol_row fp x m i)"
  by (simp add: chol_row_def Let_def)

lemma chol_off_sum_cong:
  "(\<And>k. k < i \<Longrightarrow> y ! k = x ! k) \<Longrightarrow> chol_off_sum fp y i j = chol_off_sum fp x i j"
  unfolding chol_off_sum_def by (rule fold_cong) auto

lemma chol_row_nth:
  assumes "i < length x" and "m \<le> length (x ! i)"
  shows "chol_row fp x m i ! i ! j =
     (if i < j \<and> j < m
      then fdiv fp (fsub fp (x ! i ! j) (chol_off_sum fp x i j)) (x ! i ! i)
      else x ! i ! j)"
  using assms(2)
proof (induction m arbitrary: j)
  case 0
  show ?case by (simp add: chol_row_def)
next
  case (Suc m)
  define y where "y = chol_row fp x m i"
  have IH: "y ! i ! j = (if i < j \<and> j < m
      then fdiv fp (fsub fp (x ! i ! j) (chol_off_sum fp x i j)) (x ! i ! i)
      else x ! i ! j)" for j
    using Suc.IH [of j] Suc.prems by (simp add: y_def)
  show ?case
  proof (cases "i < m")
    case False
    then show ?thesis using IH [of j] by (auto simp: chol_row_Suc y_def)
  next
    case True
    have ly: "i < length y" "m < length (y ! i)"
      using assms(1) Suc.prems by (simp_all add: y_def chol_row_frame)
    have off: "chol_off_sum fp y i m = chol_off_sum fp x i m"
      by (rule chol_off_sum_cong) (simp add: y_def chol_row_frame)
    have v: "fdiv fp (fsub fp (y ! i ! m) (chol_off_sum fp y i m)) (y ! i ! i)
           = fdiv fp (fsub fp (x ! i ! m) (chol_off_sum fp x i m)) (x ! i ! i)"
      using IH [of m] IH [of i] off by simp
    have "chol_row fp x (Suc m) i =
        mat_set y i m (fdiv fp (fsub fp (x ! i ! m) (chol_off_sum fp x i m)) (x ! i ! i))"
      using True v by (simp add: chol_row_Suc y_def Let_def)
    then show ?thesis
      using ly IH [of j] True by (auto simp: nth_mat_set nth_list_update)
  qed
qed

lemma spec_U_diag: "spec_U fp A i i = fsqrt fp (fsub fp (A ! i ! i) (spec_s fp A i))"
  by (subst spec_U.simps) (simp add: spec_s_def)

lemma spec_U_off:
  "j \<noteq> i \<Longrightarrow> spec_U fp A i j =
     fdiv fp (fsub fp (A ! i ! j)
       (fold (\<lambda>k s. fadd fp s (fmul fp (spec_U fp A k i) (spec_U fp A k j))) [0..<i] (fconst fp 0)))
       (spec_U fp A i i)"
  by (subst spec_U.simps) simp

lemma chol_loop_spec:
  assumes "chol_loop fp i n x = (ret, p, U)" and "square n x"
    and "\<forall>a<i. \<forall>b<n. a \<le> b \<longrightarrow> x ! a ! b = spec_U fp A a b"
    and "\<forall>a<n. i \<le> a \<longrightarrow> (\<forall>b<n. a \<le> b \<longrightarrow> x ! a ! b = A ! a ! b)"
    and "\<forall>a<i. \<not> fge fp (spec_s fp A a) (A ! a ! a)"
  shows "(\<forall>a<p. \<forall>b<n. a \<le> b \<longrightarrow> U ! a ! b = spec_U fp A a b)
     \<and> (\<forall>a<p. \<not> fge fp (spec_s fp A a) (A ! a ! a))
     \<and> (ret \<noteq> 0 \<longrightarrow> fge fp (spec_s fp A p) (A ! p ! p))"
  using assms
proof (induction fp i n x rule: chol_loop.induct)
  case (1 fp i n x)
  note inv1 = "1.prems"(3) and inv2 = "1.prems"(4) and inv3 = "1.prems"(5)
  show ?case
  proof (cases "i < n")
    case False
    with "1.prems" show ?thesis by (auto simp: chol_loop.simps [of fp i n x])
  next
    case True
    note inrange = True
    have len: "i < length x" "length (x ! i) = n"
      using "1.prems"(2) inrange by (auto simp: square_def list_all_length)
    have sum_eq: "chol_diag_sum fp x i = spec_s fp A i"
      unfolding chol_diag_sum_def spec_s_def
      using inv1 inrange by (intro fold_cong) auto
    have xii: "x ! i ! i = A ! i ! i"
      using inv2 inrange by simp
    show ?thesis
    proof (cases "fge fp (chol_diag_sum fp x i) (x ! i ! i)")
      case True
      then have "chol_loop fp i n x = (1, i, x)"
        using inrange by (simp add: chol_loop.simps [of fp i n x])
      with "1.prems"(1) have "ret = 1" "p = i" "U = x" by simp_all
      with True inv1 inv3 show ?thesis
        unfolding sum_eq xii by simp
    next
      case False
      define x1 where "x1 = mat_set x i i (fsqrt fp (fsub fp (x ! i ! i) (chol_diag_sum fp x i)))"
      define x2 where "x2 = chol_row fp x1 n i"
      have rec: "chol_loop fp (Suc i) n x2 = (ret, p, U)"
        using "1.prems"(1) inrange False
        by (simp add: chol_loop.simps [of fp i n x] x1_def x2_def Let_def)
      have sq1: "square n x1"
        using "1.prems"(2) by (simp add: x1_def square_mat_set)
      have sq2: "square n x2"
        using sq1 by (simp add: x2_def square_chol_row)
      have x1_other: "x1 ! a = x ! a" if "a \<noteq> i" for a
        using that by (simp add: x1_def nth_mat_set)
      have x1_row: "x1 ! i ! b = (if b = i then spec_U fp A i i else x ! i ! b)" if "b < n" for b
        using that len by (simp add: x1_def nth_mat_set nth_list_update spec_U_diag sum_eq xii)
      have len1: "i < length x1" "n \<le> length (x1 ! i)"
        using sq1 inrange by (auto simp: square_def list_all_length)
      have x2_other: "x2 ! a = x ! a" if "a \<noteq> i" for a
        using that by (simp add: x2_def chol_row_frame x1_other)
      have off: "chol_off_sum fp x1 i j
          = fold (\<lambda>k s. fadd fp s (fmul fp (spec_U fp A k i) (spec_U fp A k j))) [0..<i] (fconst fp 0)"
        if "i < j" "j < n" for j
        unfolding chol_off_sum_def
        using inv1 inrange that x1_other by (intro fold_cong) auto
      have x2_row: "x2 ! i ! j = spec_U fp A i j" if "i \<le> j" "j < n" for j
      proof (cases "j = i")
        case True
        then show ?thesis
          using chol_row_nth [OF len1, of fp i] x1_row [of i] inrange by (simp add: x2_def)
      next
        case False
        with that have ij: "i < j" by simp
        have "x2 ! i ! j = fdiv fp (fsub fp (x1 ! i ! j) (chol_off_sum fp x1 i j)) (x1 ! i ! i)"
          using chol_row_nth [OF len1, of fp j] ij that(2) by (simp add: x2_def)
        also have "x1 ! i ! j = A ! i ! j"
          using x1_row [OF that(2)] False inv2 inrange that by simp
        also have "x1 ! i ! i = spec_U fp A i i"
          using x1_row [OF inrange] by simp
        finally show ?thesis
          unfolding off [OF ij that(2)] using spec_U_off [OF False, of fp A] by simp
      qed
      have i1: "\<forall>a<Suc i. \<forall>b<n. a \<le> b \<longrightarrow> x2 ! a ! b = spec_U fp A a b"
      proof (intro allI impI)
        fix a b assume a: "a < Suc i" and b: "b < n" and ab: "a \<le> b"
        show "x2 ! a ! b = spec_U fp A a b"
        proof (cases "a = i")
          case True
          with x2_row [of b] ab b show ?thesis by simp
        next
          case False
          with a have "a < i" by simp
          with inv1 b ab x2_other [OF False] show ?thesis by simp
        qed
      qed
      have i2: "\<forall>a<n. Suc i \<le> a \<longrightarrow> (\<forall>b<n. a \<le> b \<longrightarrow> x2 ! a ! b = A ! a ! b)"
        using inv2 x2_other by simp
      have i3: "\<forall>a<Suc i. \<not> fge fp (spec_s fp A a) (A ! a ! a)"
        using inv3 False unfolding sum_eq xii by (auto simp: less_Suc_eq)
      show ?thesis
        using "1.IH" [OF inrange refl _ rec [unfolded x2_def x1_def]] False sq2 i1 i2 i3
        by (simp add: x1_def x2_def)
    qed
  qed
qed

lemma chol_diag_sum_spec:
  assumes "\<forall>a<i. U ! a ! i = spec_U fp A a i"
  shows "chol_diag_sum fp U i = spec_s fp A i"
  unfolding chol_diag_sum_def spec_s_def
  using assms by (intro fold_cong) auto


text \<open>
  The test at its boundary. Let the second diagonal entry of a matrix of order 2 be the
  product \<open>a * a\<close> as the machine rounds it, under a first row \<open>[1, a]\<close>. The sum that the
  routine accumulates at pivot 1 is that same rounded product, so the routine fails,
  whichever way the product was rounded. The hypotheses are facts of IEEE 754 arithmetic
  for \<open>one = 1.0\<close> and every finite \<open>a\<close>.
\<close>

lemma cholesky_rounded_boundary:
  assumes "\<not> fge fp (fconst fp 0) one"
    and "fsqrt fp (fsub fp one (fconst fp 0)) = one"
    and "fdiv fp (fsub fp a (fconst fp 0)) one = a"
    and "fadd fp (fconst fp 0) (fmul fp a a) = fmul fp a a"
    and "fge fp (fmul fp a a) (fmul fp a a)"
  shows "cholesky fp [[one, a], [a, fmul fp a a]] 2 = (1, [[one, a], [a, fmul fp a a]])"
  using assms
  by (simp add: cholesky_def chol_loop.simps chol_diag_sum_def chol_row_def chol_off_sum_def
      mat_set_def eval_nat_numeral upt_rec Let_def)

text \<open>
  Claim C10. \<^verbatim>\<open>cholesky(x, order)\<close> writes only entries \<open>x[i][j]\<close> with \<open>j \<ge> i\<close>: the matrix
  keeps its shape, every entry strictly below the diagonal holds its original value when
  the function returns, whether it succeeds or fails, and when it fails at pivot \<open>p\<close> the
  rows \<open>p\<close> and beyond are unchanged altogether. This holds whatever the arithmetic is.
\<close>

theorem cholesky_frame:
  assumes "square order x" and "chol_loop fp 0 order x = (ret, p, U)"
  shows "cholesky fp x order = (ret, U) \<and> square order U
     \<and> (\<forall>i<order. \<forall>j<i. U ! i ! j = x ! i ! j)
     \<and> (ret \<noteq> 0 \<longrightarrow> p < order \<and> (\<forall>i\<ge>p. U ! i = x ! i))"
proof -
  have "cholesky fp x order = (ret, U)"
    using assms(2) by (simp add: cholesky_def)
  moreover have "ret = 0 \<or> ret = 1"
    using chol_loop_frame [OF assms(2,1)] by simp
  ultimately show ?thesis
    using chol_loop_frame [OF assms(2,1)] by auto
qed

theorem cholesky_frame_witness:
  "cholesky exact_arith [[1 / 2, 0], [7, 0]] 2 = (1, [[sqrt (1 / 2), 0], [7, 0]])
   \<and> [[sqrt (1 / 2), 0], [7, 0]] ! 1 ! 0 = (7::real)"
proof -
  have sq: "square 2 [[1 / 2, 0], [7, 0::real]]"
    by (simp add: square_def)
  have run: "chol_loop exact_arith 0 2 [[1 / 2, 0], [7, 0]] = (1, 1, [[sqrt (1 / 2), 0], [7, 0]])"
    by (simp add: chol_loop.simps chol_diag_sum_def chol_row_def chol_off_sum_def
        mat_set_def exact_arith_def eval_nat_numeral upt_rec Let_def)
  show ?thesis
    using cholesky_frame [OF sq run] by simp
qed

subsection \<open>The Newton-Raphson step and its driver\<close>

lemma newton_raphson_code_11:
  "(\<exists>r. newton_raphson fp gs X Y n J N K b0 b1 xt = Some r \<and> res_ret r = 11)
   = (fst (cholesky fp (nr_hessian fp gs X Y n J N K b0) (K * (J - 1))) \<noteq> 0)"
  by (auto simp: newton_raphson_def nr_hessian_def trimult_def Let_def
      split: prod.splits option.splits if_splits)


lemma newton_raphson_failure_keeps_beta:
  "newton_raphson fp gs X Y n J N K b0 b1 xt = Some r \<Longrightarrow> res_ret r \<noteq> 0 \<Longrightarrow> res_beta1 r = b1"
  by (auto simp: newton_raphson_def trimult_def Let_def split: prod.splits if_splits option.splits)

lemma fold_inv:
  "P s \<Longrightarrow> (\<And>x s. x \<in> set xs \<Longrightarrow> P s \<Longrightarrow> P (f x s)) \<Longrightarrow> P (fold f xs s)"
  by (induction xs arbitrary: s) simp_all

lemma square_hess_add: "square m H \<Longrightarrow> square m (hess_add fp H jj kk v)"
  by (simp add: hess_add_def Let_def square_mat_set)

lemma square_nr_deriv_k:
  assumes "square m (fst (snd s))"
  shows "square m (fst (snd (nr_deriv_k fp X n J K i pi_i j q1 w1 k s)))"
proof -
  obtain g H jj where s: "s = (g, H, jj)" by (cases s)
  define P where "P = (\<lambda>t :: 'a list list \<times> int. square m (fst t))"
  have hstep: "P ((\<lambda>(H, kk). (hess_add fp H jj (nat (kk + 1)) (v kprime), kk + 1)) t)"
    if "P t" for t kprime and v :: "nat \<Rightarrow> 'a"
    using that by (cases t) (simp add: P_def square_hess_add)
  have P1: "P (fold (\<lambda>kprime (H, kk).
                 (hess_add fp H jj (nat (kk + 1))
                    (fmul fp (fmul fp w1 (X ! i ! k)) (X ! i ! kprime)), kk + 1))
              [k..<K] (H, int jj - 1))"
    by (rule fold_inv) (use assms s in \<open>simp add: P_def\<close>, rule hstep)
  have P2: "P (fold (\<lambda>jprime (H, kk).
                 let w2 = fmul fp (fmul fp (fneg fp (n ! i)) (pi_i ! j)) (pi_i ! jprime) in
                 fold (\<lambda>kprime (H, kk).
                         (hess_add fp H jj (nat (kk + 1))
                            (fmul fp (fmul fp w2 (X ! i ! k)) (X ! i ! kprime)), kk + 1))
                   [0..<K] (H, kk))
              js t)" if "P t" for t js
    using that
  proof (induction js arbitrary: t)
    case Nil
    then show ?case by simp
  next
    case (Cons a js)
    obtain H' kk' where t: "t = (H', kk')" by (cases t)
    show ?case
      unfolding fold_simps t
      by (rule Cons.IH) (simp add: Let_def, rule fold_inv, use Cons.prems t in simp, rule hstep)
  qed
  show ?thesis
    using P2 [OF P1, of "[Suc j..<J - 1]"]
    by (auto simp: nr_deriv_k_def s Let_def P_def split: prod.splits)
qed

lemma square_nr_deriv:
  assumes "square m H"
  shows "square m (snd (nr_deriv fp X Y n J K i pi_i (g, H)))"
proof -
  define P where "P = (\<lambda>t :: 'a list \<times> 'a list list \<times> nat. square m (fst (snd t)))"
  have "P (fold (\<lambda>j (g, H, jj).
                  let q1 = fsub fp (Y ! i ! j) (fmul fp (n ! i) (pi_i ! j));
                      w1 = fmul fp (fmul fp (n ! i) (pi_i ! j))
                             (fsub fp (fconst fp 1) (pi_i ! j))
                  in fold (nr_deriv_k fp X n J K i pi_i j q1 w1) [0..<K] (g, H, jj))
            [0..<J - 1] (g, H, 0))"
  proof (rule fold_inv)
    show "P (g, H, 0)" using assms by (simp add: P_def)
  next
    fix j t assume "P t"
    obtain g' H' jj' where t: "t = (g', H', jj')" by (cases t)
    show "P ((\<lambda>(g, H, jj).
                  let q1 = fsub fp (Y ! i ! j) (fmul fp (n ! i) (pi_i ! j));
                      w1 = fmul fp (fmul fp (n ! i) (pi_i ! j))
                             (fsub fp (fconst fp 1) (pi_i ! j))
                  in fold (nr_deriv_k fp X n J K i pi_i j q1 w1) [0..<K] (g, H, jj)) t)"
      unfolding t
      apply (simp add: Let_def)
      apply (rule fold_inv)
      using \<open>P t\<close> t apply simp
      apply (simp add: P_def square_nr_deriv_k)
      done
  qed
  then show ?thesis
    by (auto simp: nr_deriv_def P_def split: prod.splits)
qed

lemma square_nr_hessian: "square (K * (J - 1)) (nr_hessian fp gs X Y n J N K b0)"
proof -
  define m where "m = K * (J - 1)"
  define P where "P = (\<lambda>t :: 'a list \<times> 'a list list \<times> 'a \<times> 'a. square m (fst (snd t)))"
  have "P (nr_accumulate fp gs X Y n J N K b0)"
    unfolding nr_accumulate_def
  proof (rule fold_inv)
    show "P (replicate (K * (J - 1)) (fconst fp 0),
        replicate (K * (J - 1)) (replicate (K * (J - 1)) (fconst fp 0)),
        fconst fp 0, fconst fp 0)"
      by (simp add: P_def square_def m_def list_all_length)
  next
    fix i t assume "P t"
    obtain g H l d where t: "t = (g, H, l, d)" by (cases t)
    have "square m (snd (nr_deriv fp X Y n J K i (nr_pi fp X b0 J K i) (g, H)))"
      using \<open>P t\<close> t by (intro square_nr_deriv) (simp add: P_def)
    then show "P ((\<lambda>(g, H, loglike, deviance).
             let pi_i = nr_pi fp X b0 J K i;
                 (g', H') = nr_deriv fp X Y n J K i pi_i (g, H)
             in (g', H', nr_loglike fp gs Y n J i pi_i loglike,
                 nr_deviance fp Y n J i pi_i deviance)) t)"
      by (auto simp: t P_def Let_def split: prod.splits)
  qed
  then show ?thesis
    by (auto simp: nr_hessian_def P_def m_def split: prod.splits)
qed

lemma cholesky_square:
  assumes "square m H"
  shows "square m (snd (cholesky fp H m))"
proof -
  obtain ret p U where r: "chol_loop fp 0 m H = (ret, p, U)" by (cases "chol_loop fp 0 m H")
  from chol_loop_frame [OF r assms] show ?thesis by (simp add: cholesky_def r)
qed

lemma backsub_result:
  assumes "square m H"
  shows "(backsub fp H m = None) = (m = 0)"
proof (cases "m = 0")
  case True
  with assms show ?thesis by (simp add: backsub_def square_def)
next
  case False
  with assms have "H \<noteq> []" "H ! 0 \<noteq> []"
    by (auto simp: square_def list_all_length)
  with False show ?thesis by (simp add: backsub_def)
qed

lemma newton_raphson_result:
  "(\<exists>r. newton_raphson fp gs X Y n J N K b0 b1 xt = Some r)
   = (0 < K * (J - 1) \<or> fst (cholesky fp (nr_hessian fp gs X Y n J N K b0) (K * (J - 1))) \<noteq> 0)"
proof -
  define H where "H = nr_hessian fp gs X Y n J N K b0"
  obtain c H1 where c: "cholesky fp H (K * (J - 1)) = (c, H1)" by (cases "cholesky fp H (K * (J - 1))")
  have "square (K * (J - 1)) (snd (cholesky fp H (K * (J - 1))))"
    unfolding H_def by (rule cholesky_square [OF square_nr_hessian])
  then have "square (K * (J - 1)) H1"
    using c by simp
  from backsub_result [OF this, of fp] show ?thesis
    using c
    by (auto simp: newton_raphson_def nr_hessian_def H_def trimult_def Let_def
        split: prod.splits option.splits if_splits)
qed

lemma cholesky_order_0: "cholesky fp H 0 = (0, H)"
  by (simp add: cholesky_def chol_loop.simps)

lemma newton_raphson_Some_iff:
  "(\<exists>r. newton_raphson fp gs X Y n J N K b0 b1 xt = Some r) = (0 < K * (J - 1))"
proof (cases "0 < K * (J - 1)")
  case True
  then show ?thesis using newton_raphson_result [of fp gs X Y n J N K b0 b1 xt] by simp
next
  case False
  then have z: "K * (J - 1) = 0" by (simp only: not_gr_zero)
  show ?thesis
    using newton_raphson_result [of fp gs X Y n J N K b0 b1 xt]
    unfolding z by (simp add: cholesky_order_0)
qed

lemma nr_iterate_Some_iff:
  "(\<exists>st'. nr_iterate fp gs X Y n J N K st = Some st') = (0 < K * (J - 1))"
  using newton_raphson_Some_iff [of fp gs X Y n J N K "beta st" "beta st" "xtwx st"]
  by (auto simp: nr_iterate_def Let_def split: option.splits)

lemma nr_iterate_fields:
  assumes "nr_iterate fp gs X Y n J N K st = Some st'"
  shows "convergence st' = convergence_test fp (beta st') (beta st) (K * (J - 1))"
    and "beta0 st' = beta st" and "iter st' = Suc (iter st)"
  using assms by (auto simp: nr_iterate_def Let_def split: option.splits)

lemma convergence_test_iff:
  "convergence_test fp b b0 order =
     (\<forall>i<order. \<not> fgt fp (ffabs fp (fsub fp (b ! i) (b0 ! i)))
                        (fmul fp (EPSILON fp) (ffabs fp (b0 ! i))))"
  by (auto simp: convergence_test_def first_index_None)

lemma nr_iterate_failure_converges:
  assumes "newton_raphson fp gs X Y n J N K (beta st) (beta st) (xtwx st) = Some r"
    and "res_ret r \<noteq> 0"
    and "\<And>b. \<not> fgt fp (ffabs fp (fsub fp b b)) (fmul fp (EPSILON fp) (ffabs fp b))"
  shows "\<exists>st'. nr_iterate fp gs X Y n J N K st = Some st' \<and> convergence st'
            \<and> nrret st' = res_ret r \<and> beta st' = beta st"
  using assms newton_raphson_failure_keeps_beta [OF assms(1,2)]
  by (simp add: nr_iterate_def Let_def convergence_test_iff)

lemma nr_passes_front:
  "nr_passes fp gs X Y n J N K st (Suc k) =
     (case nr_iterate fp gs X Y n J N K st of
        None \<Rightarrow> None
      | Some s \<Rightarrow> nr_passes fp gs X Y n J N K s k)"
proof (induction k)
  case 0
  show ?case by (simp split: option.splits)
next
  case (Suc k)
  show ?case
    by (subst nr_passes.simps(2)) (simp only: Suc.IH, simp split: option.splits)
qed

lemma nr_passes_total:
  "0 < K * (J - 1) \<Longrightarrow> \<exists>s. nr_passes fp gs X Y n J N K st k = Some s"
proof (induction k)
  case 0
  show ?case by simp
next
  case (Suc k)
  then obtain s where "nr_passes fp gs X Y n J N K st k = Some s" by blast
  then show ?case
    using nr_iterate_Some_iff [of fp gs X Y n J N K s] Suc.prems by simp
qed

lemma loop_done:
  "\<not> (iter st < MAX_ITER \<and> \<not> convergence st) \<Longrightarrow> nr_loop fp gs X Y n J N K st = Some st"
  by (subst nr_loop.simps) (simp only: if_False)

lemma loop_none:
  "iter st < MAX_ITER \<and> \<not> convergence st \<Longrightarrow> nr_iterate fp gs X Y n J N K st = None
   \<Longrightarrow> nr_loop fp gs X Y n J N K st = None"
  by (subst nr_loop.simps) (simp only: if_True option.case simp_thms)

lemma loop_step:
  "iter st < MAX_ITER \<and> \<not> convergence st \<Longrightarrow> nr_iterate fp gs X Y n J N K st = Some st'
   \<Longrightarrow> nr_loop fp gs X Y n J N K st = nr_loop fp gs X Y n J N K st'"
  by (subst nr_loop.simps) (simp only: if_True option.case simp_thms)

lemma nr_loop_run:
  assumes "iter st \<le> MAX_ITER"
  shows "\<exists>k. iter st + k \<le> MAX_ITER
     \<and> nr_loop fp gs X Y n J N K st = nr_passes fp gs X Y n J N K st k
     \<and> (\<forall>k'<k. \<exists>s. nr_passes fp gs X Y n J N K st k' = Some s \<and> \<not> convergence s)
     \<and> (\<forall>s. nr_loop fp gs X Y n J N K st = Some s \<longrightarrow>
            iter s = iter st + k \<and> (convergence s \<or> iter s = MAX_ITER))"
  using assms
proof (induction fp gs X Y n J N K st rule: nr_loop.induct)
  case (1 fp gs X Y n J N K st)
  show ?case
  proof (cases "iter st < MAX_ITER \<and> \<not> convergence st")
    case False
    note l = loop_done [OF False, of fp gs X Y n J N K]
    have "iter st + 0 \<le> MAX_ITER
     \<and> nr_loop fp gs X Y n J N K st = nr_passes fp gs X Y n J N K st 0
     \<and> (\<forall>k'<0. \<exists>s. nr_passes fp gs X Y n J N K st k' = Some s \<and> \<not> convergence s)
     \<and> (\<forall>s. nr_loop fp gs X Y n J N K st = Some s \<longrightarrow>
            iter s = iter st + 0 \<and> (convergence s \<or> iter s = MAX_ITER))"
      unfolding l using False "1.prems" by auto
    then show ?thesis by (rule exI)
  next
    case True
    show ?thesis
    proof (cases "nr_iterate fp gs X Y n J N K st")
      case None
      note l = loop_none [OF True None]
      have p1: "nr_passes fp gs X Y n J N K st (Suc 0) = None"
        by (simp add: None)
      have p0: "\<forall>k'<Suc 0. \<exists>s. nr_passes fp gs X Y n J N K st k' = Some s \<and> \<not> convergence s"
        using True by simp
      have "iter st + Suc 0 \<le> MAX_ITER
     \<and> nr_loop fp gs X Y n J N K st = nr_passes fp gs X Y n J N K st (Suc 0)
     \<and> (\<forall>k'<Suc 0. \<exists>s. nr_passes fp gs X Y n J N K st k' = Some s \<and> \<not> convergence s)
     \<and> (\<forall>s. nr_loop fp gs X Y n J N K st = Some s \<longrightarrow>
            iter s = iter st + Suc 0 \<and> (convergence s \<or> iter s = MAX_ITER))"
        unfolding l p1 using True p0 by simp
      then show ?thesis by (rule exI)
    next
      case (Some st')
      note step = loop_step [OF True Some]
      have it: "iter st' = Suc (iter st)"
        using nr_iterate_fields(3) [OF Some] .
      with True have "iter st' \<le> MAX_ITER" by simp
      from "1.IH" [OF True Some this] obtain k where kk:
        "iter st' + k \<le> MAX_ITER
        \<and> nr_loop fp gs X Y n J N K st' = nr_passes fp gs X Y n J N K st' k
        \<and> (\<forall>k'<k. \<exists>s. nr_passes fp gs X Y n J N K st' k' = Some s \<and> \<not> convergence s)
        \<and> (\<forall>s. nr_loop fp gs X Y n J N K st' = Some s \<longrightarrow>
            iter s = iter st' + k \<and> (convergence s \<or> iter s = MAX_ITER))" ..
      note k = kk [THEN conjunct1] kk [THEN conjunct2, THEN conjunct1]
        kk [THEN conjunct2, THEN conjunct2, THEN conjunct1]
        kk [THEN conjunct2, THEN conjunct2, THEN conjunct2]
      have front: "nr_passes fp gs X Y n J N K st (Suc m) = nr_passes fp gs X Y n J N K st' m" for m
        by (simp only: nr_passes_front Some option.case)
      have a: "iter st + Suc k \<le> MAX_ITER"
        using k(1) it by simp
      have b: "nr_loop fp gs X Y n J N K st = nr_passes fp gs X Y n J N K st (Suc k)"
        unfolding step front using k(2) .
      have c: "\<forall>k'<Suc k. \<exists>s. nr_passes fp gs X Y n J N K st k' = Some s \<and> \<not> convergence s"
      proof (intro allI impI)
        fix k' assume "k' < Suc k"
        show "\<exists>s. nr_passes fp gs X Y n J N K st k' = Some s \<and> \<not> convergence s"
        proof (cases k')
          case 0
          with True show ?thesis by simp
        next
          case (Suc m)
          with \<open>k' < Suc k\<close> have "m < k" by simp
          with k(3) show ?thesis unfolding Suc front by simp
        qed
      qed
      have d: "\<forall>s. nr_loop fp gs X Y n J N K st = Some s \<longrightarrow>
            iter s = iter st + Suc k \<and> (convergence s \<or> iter s = MAX_ITER)"
      proof (intro allI impI)
        fix s assume "nr_loop fp gs X Y n J N K st = Some s"
        then have "nr_loop fp gs X Y n J N K st' = Some s" unfolding step .
        then have "iter s = iter st' + k \<and> (convergence s \<or> iter s = MAX_ITER)"
          by (rule k(4) [rule_format])
        then show "iter s = iter st + Suc k \<and> (convergence s \<or> iter s = MAX_ITER)"
          unfolding it by auto
      qed
      show ?thesis by (intro exI [of _ "Suc k"] conjI a b c d)
    qed
  qed
qed

text \<open>
  Two concrete fits in exact arithmetic. In the first the second design column is zero (a
  direct covariate that is 0 in every observation), so the Hessian is singular; in the
  second the model has the intercept only and the two responses are equally frequent.
\<close>

lemma nr_accumulate_singular: "nr_accumulate exact_arith gs [[1,0]] [[1,1]] [2] 2 1 2 [0,0]
   = ([0, 0], [[1/2, 0], [0, 0]], gsl_sf_lngamma gs 3 - gsl_sf_lngamma gs 2 - gsl_sf_lngamma gs 2 + ln (1/2) + ln (1/2), 0)"
  by (simp add: nr_accumulate_def nr_pi_def nr_numer_def nr_linpred_def nr_deriv_def nr_deriv_k_def
    nr_loglike_def nr_deviance_def hess_add_def mat_set_def exact_arith_def eval_nat_numeral upt_rec Let_def)

lemma cholesky_singular: "cholesky exact_arith [[1/2, 0], [0, 0]] 2 = (1, [[sqrt (1/2), 0], [0, 0]])"
  by (simp add: cholesky_def chol_loop.simps chol_diag_sum_def chol_row_def chol_off_sum_def
      mat_set_def exact_arith_def eval_nat_numeral upt_rec Let_def)

lemma newton_raphson_singular: "newton_raphson exact_arith gs [[1,0]] [[1,1]] [2] 2 1 2 [0,0] [0,0] None
   = Some \<lparr>res_ret = 11, res_beta1 = [0, 0], res_xtwx = None,
      res_loglike = gsl_sf_lngamma gs 3 - gsl_sf_lngamma gs 2 - gsl_sf_lngamma gs 2 + ln (1/2) + ln (1/2),
      res_deviance = 0\<rparr>"
proof -
  have o: "2 * (2 - 1) = (2::nat)" by simp
  show ?thesis
    unfolding newton_raphson_def nr_accumulate_singular o by (simp add: cholesky_singular)
qed

lemma exact_no_change:
  "\<not> fgt exact_arith (ffabs exact_arith (fsub exact_arith b b))
        (fmul exact_arith (EPSILON exact_arith) (ffabs exact_arith b))"
  by (simp add: exact_arith_def EPSILON_def)

lemma nr_iterate_singular: "nr_iterate exact_arith gs [[1,0]] [[1,1]] [2] 2 1 2 (nr_init exact_arith 2 2) =
   Some \<lparr>iter = 1, convergence = True, nrret = 11, beta = [0, 0], beta0 = [0, 0], xtwx = None,
      loglike = gsl_sf_lngamma gs 3 - gsl_sf_lngamma gs 2 - gsl_sf_lngamma gs 2 + ln (1/2) + ln (1/2),
      deviance = 0,
      loglike0 = gsl_sf_lngamma gs 3 - gsl_sf_lngamma gs 2 - gsl_sf_lngamma gs 2 + ln (1/2) + ln (1/2)\<rparr>"
proof -
  have b: "beta (nr_init exact_arith 2 2) = [0, 0]" "xtwx (nr_init exact_arith 2 2) = None"
      "iter (nr_init exact_arith 2 2) = 0"
    by (simp_all add: nr_init_def exact_arith_def eval_nat_numeral)
  have c: "convergence_test exact_arith [0, 0] [0, 0] (2 * (2 - 1))"
    by (simp add: convergence_test_iff EPSILON_def exact_arith_def)
  show ?thesis
    unfolding nr_iterate_def Let_def b newton_raphson_singular using c
    by (simp add: nr_init_def exact_arith_def)
qed

lemma nr_driver_singular:
  "nr_driver exact_arith gs [[1,0]] [[1,1]] [2] 2 1 2
   = Some \<lparr>iter = 1, convergence = True, nrret = 11, beta = [0, 0], beta0 = [0, 0], xtwx = None,
      loglike = gsl_sf_lngamma gs 3 - gsl_sf_lngamma gs 2 - gsl_sf_lngamma gs 2 + ln (1/2) + ln (1/2),
      deviance = 0,
      loglike0 = gsl_sf_lngamma gs 3 - gsl_sf_lngamma gs 2 - gsl_sf_lngamma gs 2 + ln (1/2) + ln (1/2)\<rparr>"
proof -
  have i0: "iter (nr_init exact_arith 2 2) < MAX_ITER \<and> \<not> convergence (nr_init exact_arith 2 2)"
    by (simp add: nr_init_def MAX_ITER_def)
  show ?thesis
    unfolding nr_driver_def loop_step [OF i0 nr_iterate_singular]
    by (rule loop_done) simp
qed

lemma nr_accumulate_balanced: "nr_accumulate exact_arith gs [[1]] [[1,1]] [2] 2 1 1 [0]
   = ([0], [[1/2]], gsl_sf_lngamma gs 3 - gsl_sf_lngamma gs 2 - gsl_sf_lngamma gs 2 + ln (1/2) + ln (1/2), 0)"
  by (simp add: nr_accumulate_def nr_pi_def nr_numer_def nr_linpred_def nr_deriv_def nr_deriv_k_def
    nr_loglike_def nr_deviance_def hess_add_def mat_set_def exact_arith_def eval_nat_numeral upt_rec Let_def)

lemma cholesky_balanced: "cholesky exact_arith [[1/2]] (Suc 0) = (0, [[sqrt (1/2)]])"
  by (simp add: cholesky_def chol_loop.simps chol_diag_sum_def chol_row_def chol_off_sum_def
      mat_set_def exact_arith_def eval_nat_numeral upt_rec Let_def)

lemma backsub_balanced: "backsub exact_arith [[sqrt (1/2)]] (Suc 0) = Some (0, [[1 / sqrt (1/2)]])"
  by (simp add: backsub_def backsub_loop.simps mat_set_def exact_arith_def)

lemma trimult_balanced: "trimult exact_arith [[1 / sqrt (1/2)]] (Suc 0) = (0, [[2]])"
  by (simp add: trimult_def exact_arith_def real_sqrt_divide)

lemma newton_raphson_balanced: "newton_raphson exact_arith gs [[1]] [[1,1]] [2] 2 1 1 [0] [0] None
   = Some \<lparr>res_ret = 0, res_beta1 = [0], res_xtwx = Some [[2]],
      res_loglike = gsl_sf_lngamma gs 3 - gsl_sf_lngamma gs 2 - gsl_sf_lngamma gs 2 + ln (1/2) + ln (1/2),
      res_deviance = 0\<rparr>"
proof -
  have o: "1 * (2 - 1) = Suc 0" by simp
  show ?thesis
    unfolding newton_raphson_def nr_accumulate_balanced o
    by (simp add: cholesky_balanced backsub_balanced trimult_balanced)
      (simp add: nr_solve_def nr_rhs_def exact_arith_def)
qed

lemma nr_iterate_balanced:
  "nr_iterate exact_arith gs [[1]] [[1,1]] [2] 2 1 1 (nr_init exact_arith 2 1) =
   Some \<lparr>iter = 1, convergence = True, nrret = 0, beta = [0], beta0 = [0], xtwx = Some [[2]],
      loglike = gsl_sf_lngamma gs 3 - gsl_sf_lngamma gs 2 - gsl_sf_lngamma gs 2 + ln (1/2) + ln (1/2),
      deviance = 0,
      loglike0 = gsl_sf_lngamma gs 3 - gsl_sf_lngamma gs 2 - gsl_sf_lngamma gs 2 + ln (1/2) + ln (1/2)\<rparr>"
proof -
  have b: "beta (nr_init exact_arith 2 1) = [0]" "xtwx (nr_init exact_arith 2 1) = None"
      "iter (nr_init exact_arith 2 1) = 0"
    by (simp_all add: nr_init_def exact_arith_def)
  have c: "convergence_test exact_arith [0] [0] (1 * (2 - 1))"
    by (simp add: convergence_test_iff EPSILON_def exact_arith_def)
  show ?thesis
    unfolding nr_iterate_def Let_def b newton_raphson_balanced using c
    by (simp add: nr_init_def exact_arith_def)
qed

lemma nr_driver_balanced:
  "nr_driver exact_arith gs [[1]] [[1,1]] [2] 2 1 1 =
   Some \<lparr>iter = 1, convergence = True, nrret = 0, beta = [0], beta0 = [0], xtwx = Some [[2]],
      loglike = gsl_sf_lngamma gs 3 - gsl_sf_lngamma gs 2 - gsl_sf_lngamma gs 2 + ln (1/2) + ln (1/2),
      deviance = 0,
      loglike0 = gsl_sf_lngamma gs 3 - gsl_sf_lngamma gs 2 - gsl_sf_lngamma gs 2 + ln (1/2) + ln (1/2)\<rparr>"
proof -
  have i0: "iter (nr_init exact_arith 2 1) < MAX_ITER \<and> \<not> convergence (nr_init exact_arith 2 1)"
    by (simp add: nr_init_def MAX_ITER_def)
  show ?thesis
    unfolding nr_driver_def loop_step [OF i0 nr_iterate_balanced]
    by (rule loop_done) simp
qed

text \<open>
  A fit with a NaN covariate. A data cell that \<^verbatim>\<open>strtod\<close> parses as NaN is accepted by the
  import; as the value of a direct covariate it becomes an entry of the design matrix.
  Two observations \<open>(x = NaN, y = 0)\<close> and \<open>(x = NaN, y = 1)\<close> are two populations, because
  \<^verbatim>\<open>NaN != NaN\<close>. Every coefficient of the first step is NaN, the step returns 0, and the
  convergence test finds no coefficient whose change exceeds the tolerance.
\<close>

lemma nan_ops [simp]:
  "fconst (with_nan fp) r = Some (fconst fp r)"
  "fadd (with_nan fp) = nan2 (fadd fp)" "fsub (with_nan fp) = nan2 (fsub fp)"
  "fmul (with_nan fp) = nan2 (fmul fp)" "fdiv (with_nan fp) = nan2 (fdiv fp)"
  "fneg (with_nan fp) = nan1 (fneg fp)" "fsqrt (with_nan fp) = nan1 (fsqrt fp)"
  "fexp (with_nan fp) = nan1 (fexp fp)" "flog (with_nan fp) = nan1 (flog fp)"
  "ffabs (with_nan fp) = nan1 (ffabs fp)"
  "feq (with_nan fp) = nan_cmp (feq fp)" "fgt (with_nan fp) = nan_cmp (fgt fp)"
  "fge (with_nan fp) = nan_cmp (fge fp)" "fle (with_nan fp) = nan_cmp (fle fp)"
  by (simp_all add: with_nan_def)

lemma nan_prop [simp]:
  "nan1 f None = None" "nan2 g None b = None" "nan2 g a None = None"
  "nan_cmp r None b = False" "nan_cmp r a None = False"
  "nan1 f (Some x) = Some (f x)" "nan2 g (Some x) (Some y) = Some (g x y)"
  "nan_cmp r (Some x) (Some y) = r x y"
  by (simp_all add: nan1_def nan2_def nan_cmp_def split: option.splits)

lemma nr_accumulate_nan:
  "fst (nr_accumulate (with_nan exact_arith) gs [[Some 1, None], [Some 1, None]]
          [[Some 1, Some 0], [Some 0, Some 1]] [Some 1, Some 1] 2 2 2 [Some 0, Some 0])
     = [None, None]
   \<and> fst (snd (nr_accumulate (with_nan exact_arith) gs [[Some 1, None], [Some 1, None]]
          [[Some 1, Some 0], [Some 0, Some 1]] [Some 1, Some 1] 2 2 2 [Some 0, Some 0]))
     = [[None, None], [None, None]]"
  by (simp add: nr_accumulate_def nr_pi_def nr_numer_def nr_linpred_def nr_deriv_def nr_deriv_k_def
    nr_loglike_def nr_deviance_def hess_add_def mat_set_def eval_nat_numeral upt_rec Let_def)

lemma cholesky_nan:
  "cholesky (with_nan exact_arith) [[None, None], [None, None]] 2
     = (0, [[None, None], [None, None]])"
  by (simp add: cholesky_def chol_loop.simps chol_diag_sum_def chol_row_def chol_off_sum_def
      mat_set_def eval_nat_numeral upt_rec Let_def)

lemma backsub_nan:
  "backsub (with_nan exact_arith) [[None, None], [None, None]] 2
     = Some (0, [[None, None], [None, None]])"
  by (simp add: backsub_def backsub_loop.simps backsub_col_def mat_set_def eval_nat_numeral
      upt_rec Let_def)

lemma trimult_nan:
  "trimult (with_nan exact_arith) [[None, None], [None, None]] 2
     = (0, [[None, None], [None, None]])"
  by (simp add: trimult_def eval_nat_numeral upt_rec)

lemma newton_raphson_nan:
  assumes "length b1 = 2"
  shows "\<exists>l d. newton_raphson (with_nan exact_arith) gs [[Some 1, None], [Some 1, None]]
          [[Some 1, Some 0], [Some 0, Some 1]] [Some 1, Some 1] 2 2 2 [Some 0, Some 0] b1 xt
     = Some \<lparr>res_ret = 0, res_beta1 = [None, None],
              res_xtwx = Some [[None, None], [None, None]],
              res_loglike = l, res_deviance = d\<rparr>"
proof -
  obtain g H l d where a: "nr_accumulate (with_nan exact_arith) gs [[Some 1, None], [Some 1, None]]
          [[Some 1, Some 0], [Some 0, Some 1]] [Some 1, Some 1] 2 2 2 [Some 0, Some 0] = (g, H, l, d)"
    using prod_cases4 by blast
  have gH: "g = [None, None]" "H = [[None, None], [None, None]]"
    using nr_accumulate_nan [of gs] unfolding a by simp_all
  have o: "2 * (2 - 1) = (2::nat)" by simp
  obtain u v where b1: "b1 = [u, v]"
    using assms by (cases b1; cases "tl b1") auto
  have "newton_raphson (with_nan exact_arith) gs [[Some 1, None], [Some 1, None]]
          [[Some 1, Some 0], [Some 0, Some 1]] [Some 1, Some 1] 2 2 2 [Some 0, Some 0] b1 xt
     = Some \<lparr>res_ret = 0, res_beta1 = [None, None],
              res_xtwx = Some [[None, None], [None, None]],
              res_loglike = l, res_deviance = d\<rparr>"
    unfolding newton_raphson_def a gH o b1
    by (simp add: cholesky_nan backsub_nan trimult_nan)
      (simp add: nr_solve_def nr_rhs_def eval_nat_numeral upt_rec)
  then show ?thesis by blast
qed

lemma convergence_test_nan:
  "convergence_test (with_nan exact_arith) [None, None] [Some 0, Some 0] 2"
  by (simp add: convergence_test_def eval_nat_numeral upt_rec)

lemma nr_driver_nan:
  "\<exists>s. nr_driver (with_nan exact_arith) gs [[Some 1, None], [Some 1, None]]
          [[Some 1, Some 0], [Some 0, Some 1]] [Some 1, Some 1] 2 2 2 = Some s
       \<and> iter s = 1 \<and> nrret s = 0 \<and> convergence s
       \<and> beta s = [None, None] \<and> beta0 s = [Some 0, Some 0]"
proof -
  let ?st = "nr_init (with_nan exact_arith) 2 2"
  have b: "beta ?st = [Some 0, Some 0]" "iter ?st = 0" "convergence ?st = False"
    by (simp_all add: nr_init_def exact_arith_def eval_nat_numeral)
  obtain l d where r: "newton_raphson (with_nan exact_arith) gs [[Some 1, None], [Some 1, None]]
          [[Some 1, Some 0], [Some 0, Some 1]] [Some 1, Some 1] 2 2 2 [Some 0, Some 0]
          (beta ?st) (xtwx ?st)
     = Some \<lparr>res_ret = 0, res_beta1 = [None, None],
              res_xtwx = Some [[None, None], [None, None]],
              res_loglike = l, res_deviance = d\<rparr>"
    using newton_raphson_nan [of "beta ?st" gs "xtwx ?st"] by (auto simp: b)
  have o: "2 * (2 - 1) = (2::nat)" by simp
  obtain s where it: "nr_iterate (with_nan exact_arith) gs [[Some 1, None], [Some 1, None]]
          [[Some 1, Some 0], [Some 0, Some 1]] [Some 1, Some 1] 2 2 2 ?st = Some s"
    and s: "iter s = 1" "nrret s = 0" "convergence s" "beta s = [None, None]"
      "beta0 s = [Some 0, Some 0]"
    using r convergence_test_nan by (simp add: nr_iterate_def Let_def b o)
  have i0: "iter ?st < MAX_ITER \<and> \<not> convergence ?st"
    by (simp add: b MAX_ITER_def)
  have "nr_driver (with_nan exact_arith) gs [[Some 1, None], [Some 1, None]]
          [[Some 1, Some 0], [Some 0, Some 1]] [Some 1, Some 1] 2 2 2 = Some s"
    unfolding nr_driver_def loop_step [OF i0 it]
    by (rule loop_done) (simp add: s)
  with s show ?thesis by blast
qed


subsection \<open>Claims about the estimator\<close>

text \<open>
  Claim C6. Let \<open>s\<close> and \<open>U\<close> be the sums and the factor that the specification describes
  (\<open>spec_s\<close>, \<open>spec_U\<close>), computed from \<open>A\<close> in the arithmetic of the machine. On a matrix
  of the given order, \<^verbatim>\<open>cholesky\<close> fails exactly when at some pivot \<open>i\<close> the accumulated sum
  satisfies \<open>s >= A[i][i]\<close>, the plain comparison of C with no tolerance. When it fails,
  the loop counter \<open>p\<close> at return is the first such pivot, and the sum that the routine
  has accumulated over the entries \<open>U[j][p]\<close> it wrote is that \<open>s\<close>. Every row of a pivot
  that passed holds \<open>U\<close> on and above the diagonal, with
  \<open>U[i][i] = sqrt (A[i][i] - s)\<close>; on success these are all the rows, so the upper
  triangle holds \<open>U\<close>. \<^verbatim>\<open>newton_raphson\<close> returns 11 exactly when \<^verbatim>\<open>cholesky\<close> fails on
  its Hessian. The matrix need not be symmetric: the routine reads the upper triangle
  only.
\<close>

theorem cholesky_failure_iff:
  assumes "square order A" and "chol_loop fp 0 order A = (ret, p, U)"
  shows "cholesky fp A order = (ret, U)
     \<and> ((ret \<noteq> 0) = (\<exists>i<order. fge fp (spec_s fp A i) (A ! i ! i)))
     \<and> (ret \<noteq> 0 \<longrightarrow> p < order \<and> fge fp (spec_s fp A p) (A ! p ! p)
                      \<and> fge fp (chol_diag_sum fp U p) (A ! p ! p))
     \<and> (\<forall>i<p. \<not> fge fp (spec_s fp A i) (A ! i ! i))
     \<and> (ret = 0 \<longrightarrow> p = order)
     \<and> (\<forall>i<p. \<forall>j<order. i \<le> j \<longrightarrow> U ! i ! j = spec_U fp A i j)
     \<and> (\<forall>i<p. chol_diag_sum fp U i = spec_s fp A i
               \<and> U ! i ! i = fsqrt fp (fsub fp (A ! i ! i) (chol_diag_sum fp U i)))
     \<and> ((\<exists>r. newton_raphson fp gs X Y n J N K b0 b1 xt = Some r \<and> res_ret r = 11)
          = (fst (cholesky fp (nr_hessian fp gs X Y n J N K b0) (K * (J - 1))) \<noteq> 0))"
proof -
  note fr = chol_loop_frame [OF assms(2,1)]
  have sp: "(\<forall>a<p. \<forall>b<order. a \<le> b \<longrightarrow> U ! a ! b = spec_U fp A a b)
     \<and> (\<forall>a<p. \<not> fge fp (spec_s fp A a) (A ! a ! a))
     \<and> (ret \<noteq> 0 \<longrightarrow> fge fp (spec_s fp A p) (A ! p ! p))"
    using chol_loop_spec [OF assms(2,1), of A] by simp
  have c: "cholesky fp A order = (ret, U)"
    using assms(2) by (simp add: cholesky_def)
  have r01: "ret = 0 \<or> ret = 1" using fr by simp
  have fin: "p = order" if "ret = 0"
    using fr that by auto
  have pn: "p < order" if "ret \<noteq> 0"
    using fr r01 that by auto
  have ple: "p \<le> order"
    using fin pn by (cases "ret = 0") auto
  have ds: "chol_diag_sum fp U i = spec_s fp A i" if "i \<le> p" "i < order" for i
    using sp that by (intro chol_diag_sum_spec) auto
  have diag: "chol_diag_sum fp U i = spec_s fp A i
      \<and> U ! i ! i = fsqrt fp (fsub fp (A ! i ! i) (chol_diag_sum fp U i))" if "i < p" for i
  proof -
    have io: "i < order" using that ple by simp
    have "U ! i ! i = spec_U fp A i i" using sp that io by simp
    then show ?thesis using ds [of i] that io by (simp add: spec_U_diag)
  qed
  have bad: "p < order \<and> fge fp (spec_s fp A p) (A ! p ! p)
       \<and> fge fp (chol_diag_sum fp U p) (A ! p ! p)" if "ret \<noteq> 0"
    using sp pn [OF that] ds [of p] that by simp
  have iff: "(ret \<noteq> 0) = (\<exists>i<order. fge fp (spec_s fp A i) (A ! i ! i))"
  proof
    assume "ret \<noteq> 0"
    with bad show "\<exists>i<order. fge fp (spec_s fp A i) (A ! i ! i)" by blast
  next
    assume "\<exists>i<order. fge fp (spec_s fp A i) (A ! i ! i)"
    then obtain i where i: "i < order" "fge fp (spec_s fp A i) (A ! i ! i)" by blast
    show "ret \<noteq> 0"
    proof
      assume "ret = 0"
      with fin i(1) have "i < p" by simp
      with sp i(2) show False by simp
    qed
  qed
  show ?thesis
    using c iff bad sp fin diag newton_raphson_code_11 [of fp gs X Y n J N K b0 b1 xt]
    by blast
qed

theorem cholesky_failure_iff_witness:
  "cholesky exact_arith [[4, 2], [2, 2]] 2 = (0, [[2, 1], [2, 1]])
   \<and> spec_U exact_arith [[4, 2], [2, 2]] 0 0 = 2
   \<and> spec_U exact_arith [[4, 2], [2, 2]] 0 1 = 1
   \<and> spec_U exact_arith [[4, 2], [2, 2]] 1 1 = 1
   \<and> spec_s exact_arith [[4, 2], [2, 2]] 1 = 1
   \<and> cholesky exact_arith [[1, 2], [2, 4]] 2 = (1, [[1, 2], [2, 4]])
   \<and> spec_s exact_arith [[1, 2], [2, 4]] 1 = 4"
proof -
  have sq: "square 2 [[4, 2], [2, 2::real]]" "square 2 [[1, 2], [2, 4::real]]"
    by (simp_all add: square_def)
  have run: "chol_loop exact_arith 0 2 [[4, 2], [2, 2]] = (0, 2, [[2, 1], [2, 1]])"
    by (simp add: chol_loop.simps chol_diag_sum_def chol_row_def chol_off_sum_def
        mat_set_def exact_arith_def eval_nat_numeral upt_rec Let_def)
  have bad: "chol_loop exact_arith 0 2 [[1, 2], [2, 4]] = (1, 1, [[1, 2], [2, 4]])"
    by (simp add: chol_loop.simps chol_diag_sum_def chol_row_def chol_off_sum_def
        mat_set_def exact_arith_def eval_nat_numeral upt_rec Let_def)
  have s: "chol_diag_sum exact_arith [[2, 1], [2, 1]] 1 = 1"
     "chol_diag_sum exact_arith [[1, 2], [2, 4]] 1 = 4"
    by (simp_all add: chol_diag_sum_def exact_arith_def)
  note ok = cholesky_failure_iff [OF sq(1) run]
  note ko = cholesky_failure_iff [OF sq(2) bad]
  have U: "\<forall>i<2. \<forall>j<2. i \<le> j \<longrightarrow> [[2, 1], [2, 1]] ! i ! j = spec_U exact_arith [[4, 2], [2, 2]] i j"
    and d: "\<forall>i<2. chol_diag_sum exact_arith [[2, 1], [2, 1]] i = spec_s exact_arith [[4, 2], [2, 2]] i"
    using ok by blast+
  have u: "spec_U exact_arith [[4, 2], [2, 2]] 0 0 = 2" "spec_U exact_arith [[4, 2], [2, 2]] 0 1 = 1"
      "spec_U exact_arith [[4, 2], [2, 2]] 1 1 = 1"
    using U [rule_format, of 0 0] U [rule_format, of 0 1] U [rule_format, of 1 1] by simp_all
  have s1: "spec_s exact_arith [[4, 2], [2, 2]] 1 = 1"
    using d [rule_format, of 1] s(1) by simp
  have s3: "spec_s exact_arith [[1, 2], [2, 4]] 1 = 4"
    by (simp add: spec_s_def spec_U.simps [of _ _ 0] exact_arith_def)
  show ?thesis
    using ok ko u s1 s3 by simp
qed

text \<open>
  Claim C8, as the code has it. \<open>MAX_ITER\<close> is 30 and \<open>EPSILON\<close> is the double \<^verbatim>\<open>1e-8\<close>. A
  pass of the loop saves the coefficients in \<open>beta0\<close> and sets \<open>convergence\<close> exactly when
  no coefficient satisfies \<^verbatim>\<open>fabs(beta[i] - beta0[i]) > EPSILON * fabs(beta0[i])\<close>. In an
  arithmetic where \<^verbatim>\<open>>\<close> is the negation of \<^verbatim>\<open><=\<close> this is: every coefficient satisfies
  \<open>|beta[i] - beta0[i]| <= EPSILON * |beta0[i]|\<close>. A pass has a result exactly when the
  parameter count \<open>K * (J - 1)\<close> is positive (with none, \<^verbatim>\<open>backsub\<close> reads outside the empty
  Hessian). The driver makes \<open>k \<le> 30\<close> passes: none of the states before the \<open>k\<close>-th has
  \<open>convergence\<close> set, and the loop ends in the state after the \<open>k\<close>-th with \<open>convergence\<close>
  set or \<open>k = 30\<close>.
\<close>

theorem nr_driver_iterations:
  "MAX_ITER = 30 \<and> EPSILON fp = fconst fp (1 / 10 ^ 8)
   \<and> (\<forall>st'. nr_iterate fp gs X Y n J N K st = Some st' \<longrightarrow>
         convergence st'
           = (\<forall>i<K * (J - 1). \<not> fgt fp (ffabs fp (fsub fp (beta st' ! i) (beta st ! i)))
                                       (fmul fp (EPSILON fp) (ffabs fp (beta st ! i))))
         \<and> ((\<forall>a b. fgt fp a b = (\<not> fle fp a b)) \<longrightarrow>
              convergence st'
                = (\<forall>i<K * (J - 1). fle fp (ffabs fp (fsub fp (beta st' ! i) (beta st ! i)))
                                         (fmul fp (EPSILON fp) (ffabs fp (beta st ! i)))))
         \<and> beta0 st' = beta st \<and> iter st' = Suc (iter st))
   \<and> ((\<exists>st'. nr_iterate fp gs X Y n J N K st = Some st') = (0 < K * (J - 1)))
   \<and> (\<exists>k\<le>30. nr_driver fp gs X Y n J N K = nr_passes fp gs X Y n J N K (nr_init fp J K) k
         \<and> (\<forall>k'<k. \<exists>s. nr_passes fp gs X Y n J N K (nr_init fp J K) k' = Some s
                        \<and> \<not> convergence s)
         \<and> (\<forall>s. nr_driver fp gs X Y n J N K = Some s \<longrightarrow>
                iter s = k \<and> (convergence s \<or> k = 30)))
   \<and> ((\<exists>s. nr_driver fp gs X Y n J N K = Some s) = (0 < K * (J - 1)))"
proof -
  have step: "convergence st'
           = (\<forall>i<K * (J - 1). \<not> fgt fp (ffabs fp (fsub fp (beta st' ! i) (beta st ! i)))
                                       (fmul fp (EPSILON fp) (ffabs fp (beta st ! i))))
         \<and> ((\<forall>a b. fgt fp a b = (\<not> fle fp a b)) \<longrightarrow>
              convergence st'
                = (\<forall>i<K * (J - 1). fle fp (ffabs fp (fsub fp (beta st' ! i) (beta st ! i)))
                                         (fmul fp (EPSILON fp) (ffabs fp (beta st ! i)))))
         \<and> beta0 st' = beta st \<and> iter st' = Suc (iter st)"
    if "nr_iterate fp gs X Y n J N K st = Some st'" for st'
    using nr_iterate_fields [OF that] by (simp add: convergence_test_iff)
  have i0: "iter (nr_init fp J K) \<le> MAX_ITER"
    by (simp add: nr_init_def)
  have z: "iter (nr_init fp J K) = 0" by (simp add: nr_init_def)
  from nr_loop_run [OF i0, where gs = gs and X = X and Y = Y and n = n and N = N] obtain k where k:
    "iter (nr_init fp J K) + k \<le> MAX_ITER
     \<and> nr_loop fp gs X Y n J N K (nr_init fp J K) = nr_passes fp gs X Y n J N K (nr_init fp J K) k
     \<and> (\<forall>k'<k. \<exists>s. nr_passes fp gs X Y n J N K (nr_init fp J K) k' = Some s \<and> \<not> convergence s)
     \<and> (\<forall>s. nr_loop fp gs X Y n J N K (nr_init fp J K) = Some s \<longrightarrow>
            iter s = iter (nr_init fp J K) + k \<and> (convergence s \<or> iter s = MAX_ITER))" ..
  have run: "\<exists>k\<le>30. nr_driver fp gs X Y n J N K = nr_passes fp gs X Y n J N K (nr_init fp J K) k
         \<and> (\<forall>k'<k. \<exists>s. nr_passes fp gs X Y n J N K (nr_init fp J K) k' = Some s
                        \<and> \<not> convergence s)
         \<and> (\<forall>s. nr_driver fp gs X Y n J N K = Some s \<longrightarrow>
                iter s = k \<and> (convergence s \<or> k = 30))"
    using k unfolding nr_driver_def z MAX_ITER_def
    by (intro exI [of _ k]) auto
  have tot: "(\<exists>s. nr_driver fp gs X Y n J N K = Some s) = (0 < K * (J - 1))"
  proof (cases "0 < K * (J - 1)")
    case True
    from k have "nr_driver fp gs X Y n J N K = nr_passes fp gs X Y n J N K (nr_init fp J K) k"
      by (simp add: nr_driver_def)
    with nr_passes_total [OF True, where fp = fp and gs = gs and X = X and Y = Y and n = n and N = N and st = "nr_init fp J K" and k = k] True show ?thesis by simp
  next
    case False
    have "\<not> (\<exists>st'. nr_iterate fp gs X Y n J N K (nr_init fp J K) = Some st')"
      unfolding nr_iterate_Some_iff using False .
    then have none: "nr_iterate fp gs X Y n J N K (nr_init fp J K) = None"
      by (cases "nr_iterate fp gs X Y n J N K (nr_init fp J K)") simp_all
    have "iter (nr_init fp J K) < MAX_ITER \<and> \<not> convergence (nr_init fp J K)"
      by (simp add: nr_init_def MAX_ITER_def)
    from loop_none [OF this none] have "nr_driver fp gs X Y n J N K = None"
      by (simp only: nr_driver_def)
    with False show ?thesis by simp
  qed
  have m: "MAX_ITER = 30" by (simp add: MAX_ITER_def)
  have e: "EPSILON fp = fconst fp (1 / 10 ^ 8)" by (simp add: EPSILON_def)
  from step have step': "\<forall>st'. nr_iterate fp gs X Y n J N K st = Some st' \<longrightarrow>
         convergence st'
           = (\<forall>i<K * (J - 1). \<not> fgt fp (ffabs fp (fsub fp (beta st' ! i) (beta st ! i)))
                                       (fmul fp (EPSILON fp) (ffabs fp (beta st ! i))))
         \<and> ((\<forall>a b. fgt fp a b = (\<not> fle fp a b)) \<longrightarrow>
              convergence st'
                = (\<forall>i<K * (J - 1). fle fp (ffabs fp (fsub fp (beta st' ! i) (beta st ! i)))
                                         (fmul fp (EPSILON fp) (ffabs fp (beta st ! i)))))
         \<and> beta0 st' = beta st \<and> iter st' = Suc (iter st)"
    by (intro allI impI)
  show ?thesis
    by (intro conjI m e step' run tot nr_iterate_Some_iff)
qed

theorem nr_driver_iterations_witness:
  "\<forall>gs. (\<exists>s. nr_driver exact_arith gs [[1]] [[1, 1]] [2] 2 1 1 = Some s
            \<and> iter s = 1 \<and> convergence s \<and> beta s = [0] \<and> beta0 s = [0]
            \<and> nr_iterate exact_arith gs [[1]] [[1, 1]] [2] 2 1 1 (nr_init exact_arith 2 1) = Some s)
     \<and> fle exact_arith (ffabs exact_arith (fsub exact_arith 0 0))
          (fmul exact_arith (EPSILON exact_arith) (ffabs exact_arith 0))"
proof
  fix gs
  obtain s where it: "nr_iterate exact_arith gs [[1]] [[1, 1]] [2] 2 1 1 (nr_init exact_arith 2 1) = Some s"
    and s: "iter s = 1" "convergence s" "beta s = [0]" "beta0 s = [0]"
    using nr_iterate_balanced [of gs] by simp
  have dr: "nr_driver exact_arith gs [[1]] [[1, 1]] [2] 2 1 1 = Some s"
    using it unfolding nr_driver_balanced nr_iterate_balanced .
  have c: "\<forall>a b. fgt exact_arith a b = (\<not> fle exact_arith a b)"
    by (auto simp: exact_arith_def)
  have b0: "beta (nr_init exact_arith 2 1) = [0]"
    by (simp add: nr_init_def exact_arith_def)
  note t = nr_driver_iterations [of exact_arith gs "[[1]]" "[[1, 1]]" "[2]" 2 1 1 "nr_init exact_arith 2 1"]
  from t have "\<forall>st'. nr_iterate exact_arith gs [[1]] [[1, 1]] [2] 2 1 1 (nr_init exact_arith 2 1) = Some st' \<longrightarrow>
         convergence st'
           = (\<forall>i<1 * (2 - 1). \<not> fgt exact_arith (ffabs exact_arith (fsub exact_arith (beta st' ! i) (beta (nr_init exact_arith 2 1) ! i)))
                                       (fmul exact_arith (EPSILON exact_arith) (ffabs exact_arith (beta (nr_init exact_arith 2 1) ! i))))
         \<and> ((\<forall>a b. fgt exact_arith a b = (\<not> fle exact_arith a b)) \<longrightarrow>
              convergence st'
                = (\<forall>i<1 * (2 - 1). fle exact_arith (ffabs exact_arith (fsub exact_arith (beta st' ! i) (beta (nr_init exact_arith 2 1) ! i)))
                                         (fmul exact_arith (EPSILON exact_arith) (ffabs exact_arith (beta (nr_init exact_arith 2 1) ! i)))))
         \<and> beta0 st' = beta (nr_init exact_arith 2 1) \<and> iter st' = Suc (iter (nr_init exact_arith 2 1))"
    by (rule conjunct2 [THEN conjunct2, THEN conjunct1])
  from this [rule_format, OF it] c s(2)
  have "\<forall>i<1 * (2 - 1). fle exact_arith (ffabs exact_arith (fsub exact_arith (beta s ! i) (beta (nr_init exact_arith 2 1) ! i)))
                                         (fmul exact_arith (EPSILON exact_arith) (ffabs exact_arith (beta (nr_init exact_arith 2 1) ! i)))"
    by blast
  then have "fle exact_arith (ffabs exact_arith (fsub exact_arith 0 0))
          (fmul exact_arith (EPSILON exact_arith) (ffabs exact_arith 0))"
    unfolding s b0 by simp
  with dr it s show "(\<exists>s. nr_driver exact_arith gs [[1]] [[1, 1]] [2] 2 1 1 = Some s
            \<and> iter s = 1 \<and> convergence s \<and> beta s = [0] \<and> beta0 s = [0]
            \<and> nr_iterate exact_arith gs [[1]] [[1, 1]] [2] 2 1 1 (nr_init exact_arith 2 1) = Some s)
     \<and> fle exact_arith (ffabs exact_arith (fsub exact_arith 0 0))
          (fmul exact_arith (EPSILON exact_arith) (ffabs exact_arith 0))"
    by blast
qed

text \<open>
  The claim as stated, with \<open><=\<close> for every coefficient, fails where a coefficient is NaN:
  the comparison \<^verbatim>\<open>>\<close> is false, so the flag is set, and \<^verbatim>\<open><=\<close> is false as well. The
  coefficients \<open>[NaN, NaN]\<close> against the saved \<open>[0, 0]\<close> are those of the first pass of the
  fit with a NaN covariate above (lemma \<open>nr_driver_nan\<close>).
\<close>

theorem nr_convergence_nan:
  "convergence_test (with_nan exact_arith) [None, None] [Some 0, Some 0] 2
   \<and> \<not> fle (with_nan exact_arith)
         (ffabs (with_nan exact_arith) (fsub (with_nan exact_arith) ([None, None] ! 0) ([Some 0, Some 0] ! 0)))
         (fmul (with_nan exact_arith) (EPSILON (with_nan exact_arith))
            (ffabs (with_nan exact_arith) ([Some 0, Some 0] ! 0)))"
  by (simp add: convergence_test_def eval_nat_numeral upt_rec)

text \<open>
  Claim C1 (not met by the code). The value returned by \<^verbatim>\<open>newton_raphson\<close> is stored in
  \<open>nrret\<close> and never tested. A failed step leaves \<open>beta\<close> as it was, equal to \<open>beta0\<close>, so
  the convergence test succeeds (lemma \<open>nr_iterate_failure_converges\<close>): the loop exits
  with \<open>convergence\<close> set, the report says \<open>Convergence: YES\<close>, and the significance tests
  are computed. The fit below is the one of \<^verbatim>\<open>y = direct.x\<close> on two observations with
  \<open>x = 0\<close>: one population, the design row \<open>[1, 0]\<close>, and a first step that returns 11. The
  model has no interaction, so step 6 adds no column to the design. The values that
  the gradient, the Hessian and the factorisation take up to the failing pivot are 0,
  1/2, 1 and 2, and the operations on them are exact in binary floating point, but for
  the square root of 1/2, which only divides 0.
\<close>

theorem nr_driver_ignores_failure:
  "map_option (\<lambda>d. (d_X d, d_Y d, d_n d, d_J d, d_N d, d_K d))
     (mlelr_design init_options ds_zero m_direct) = Some ([[1, 0]], [[1, 1]], [2], 2, 1, 2)
   \<and> (\<exists>st. nr_driver exact_arith gs [[1, 0]] [[1, 1]] [2] 2 1 2 = Some st
         \<and> nrret st = 11 \<and> iter st = 1 \<and> convergence st
         \<and> report_convergence st = ''Convergence: YES''
         \<and> report_fit_results st
         \<and> significance_tests exact_arith gs 2 1 2 st \<noteq> None)"
proof -
  have design: "map_option (\<lambda>d. (d_X d, d_Y d, d_n d, d_J d, d_N d, d_K d))
     (mlelr_design init_options ds_zero m_direct) = Some ([[1, 0]], [[1, 1]], [2], 2, 1, 2)"
    by code_simp
  show ?thesis
    using design
    by (simp add: nr_driver_singular [unfolded One_nat_def] report_convergence_def
        report_fit_results_def significance_tests_def Let_def)
qed

theorem nr_driver_ignores_failure_witness:
  "\<forall>gs. \<exists>st. nr_driver exact_arith gs [[1, 0]] [[1, 1]] [2] 2 1 2 = Some st
     \<and> nrret st = 11 \<and> convergence st
     \<and> report_convergence st = ''Convergence: YES''"
  using nr_driver_ignores_failure by blast
subsection \<open>Value equality in the tabulator\<close>

lemma first_index_iff:
  "(first_index P xs = Some k) = (k < length xs \<and> P (xs ! k) \<and> (\<forall>j<k. \<not> P (xs ! j)))"
proof
  assume "first_index P xs = Some k"
  then show "k < length xs \<and> P (xs ! k) \<and> (\<forall>j<k. \<not> P (xs ! j))"
    by (rule first_index_Some)
next
  assume r: "k < length xs \<and> P (xs ! k) \<and> (\<forall>j<k. \<not> P (xs ! j))"
  then have "\<exists>x \<in> set xs. P x" by (metis nth_mem)
  then obtain k' where k': "first_index P xs = Some k'"
    using first_index_None [of P xs] by (cases "first_index P xs") auto
  from first_index_Some [OF k'] r have "k' = k"
    by (meson linorder_neqE_nat)
  with k' show "first_index P xs = Some k" by simp
qed

lemma first_index_Least:
  assumes "first_index P xs = Some k"
  shows "k = (LEAST i. i < length xs \<and> P (xs ! i))"
proof -
  from first_index_Some [OF assms]
  have "k < length xs \<and> P (xs ! k)" and "\<And>j. j < length xs \<and> P (xs ! j) \<Longrightarrow> k \<le> j"
    by (auto simp: not_less [symmetric])
  then show ?thesis by (intro Least_equality [symmetric]) auto
qed

lemma first_index_upt_None:
  "(first_index P [0..<n] = None) = (\<forall>j<n. \<not> P j)"
  by (auto simp: first_index_None)

text \<open>
  Claim C3, as the code has it. In \<^verbatim>\<open>tabulate\<close> a value \<open>v\<close> is accumulated into the entry of
  the first existing key \<open>u\<close> with \<^verbatim>\<open>v == u\<close> as C compares doubles: neither is a NaN, and
  the two bit patterns are identical or both are zeros (of either sign). Otherwise, and
  so for every NaN, \<open>v\<close> starts a new entry. The crosstab does the same with every one of
  the \<open>1 + numiv\<close> key columns.
\<close>

theorem tabulate_equality_ieee:
  fixes tbl :: "double_bits list list"
  defines "same u v \<equiv> \<not> is_nan u \<and> \<not> is_nan v \<and> (u = v \<or> (is_zero u \<and> is_zero v))"
  shows "freq_add double_eq add tbl v w =
       (if \<exists>k<length tbl. same v (tbl ! k ! 0)
        then tbl[(LEAST k. k < length tbl \<and> same v (tbl ! k ! 0)) :=
                 (tbl ! (LEAST k. k < length tbl \<and> same v (tbl ! k ! 0)))
                   [1 := add (tbl ! (LEAST k. k < length tbl \<and> same v (tbl ! k ! 0)) ! 1) w]]
        else tbl @ [[v, w]])
     \<and> xtab_add double_eq add tbl obs nv w =
       (if \<exists>i<length tbl. \<forall>j<1 + nv. same (obs ! j) (tbl ! i ! j)
        then tbl[(LEAST i. i < length tbl \<and> (\<forall>j<1 + nv. same (obs ! j) (tbl ! i ! j))) :=
                 (tbl ! (LEAST i. i < length tbl \<and> (\<forall>j<1 + nv. same (obs ! j) (tbl ! i ! j))))
                   [1 + nv := add (tbl ! (LEAST i. i < length tbl
                                      \<and> (\<forall>j<1 + nv. same (obs ! j) (tbl ! i ! j))) ! (1 + nv)) w]]
        else tbl @ [obs @ [w]])"
proof -
  have eq: "double_eq = same"
    by (auto simp: double_eq_def same_def fun_eq_iff)
  have a: "freq_add double_eq add tbl v w =
       (if \<exists>k<length tbl. same v (tbl ! k ! 0)
        then tbl[(LEAST k. k < length tbl \<and> same v (tbl ! k ! 0)) :=
                 (tbl ! (LEAST k. k < length tbl \<and> same v (tbl ! k ! 0)))
                   [1 := add (tbl ! (LEAST k. k < length tbl \<and> same v (tbl ! k ! 0)) ! 1) w]]
        else tbl @ [[v, w]])"
  proof (cases "freq_search double_eq v tbl")
    case None
    then have "\<not> (\<exists>k<length tbl. same v (tbl ! k ! 0))"
      by (auto simp: freq_search_def first_index_None eq)
    with None show ?thesis by (auto simp: freq_add_def)
  next
    case (Some k)
    then have fi: "first_index (\<lambda>row. same v (row ! 0)) tbl = Some k"
      by (simp add: freq_search_def eq)
    from first_index_Some [OF fi] have ex: "\<exists>k<length tbl. same v (tbl ! k ! 0)" by blast
    from first_index_Least [OF fi] ex Some show ?thesis by (auto simp: freq_add_def)
  qed
  let ?match = "\<lambda>row. \<forall>j<1 + nv. same (obs ! j) (row ! j)"
  have m: "(\<lambda>row. first_index (\<lambda>j. \<not> double_eq (obs ! j) (row ! j)) [0..<1 + nv] = None) = ?match"
    unfolding first_index_upt_None eq by simp
  have b: "xtab_add double_eq add tbl obs nv w =
       (if \<exists>i<length tbl. ?match (tbl ! i)
        then tbl[(LEAST i. i < length tbl \<and> ?match (tbl ! i)) :=
                 (tbl ! (LEAST i. i < length tbl \<and> ?match (tbl ! i)))
                   [1 + nv := add (tbl ! (LEAST i. i < length tbl \<and> ?match (tbl ! i)) ! (1 + nv)) w]]
        else tbl @ [obs @ [w]])"
  proof (cases "find_observation double_eq tbl obs (1 + nv)")
    case None
    then have "\<not> (\<exists>i<length tbl. ?match (tbl ! i))"
      unfolding find_observation_def m by (auto simp: first_index_None)
    with None show ?thesis by (auto simp: xtab_add_def)
  next
    case (Some i)
    then have fi: "first_index ?match tbl = Some i"
      unfolding find_observation_def m .
    from first_index_Some [OF fi] have ex: "\<exists>i<length tbl. ?match (tbl ! i)" by blast
    from first_index_Least [OF fi] ex Some show ?thesis by (auto simp: xtab_add_def)
  qed
  show ?thesis using a b by blast
qed

theorem tabulate_equality_ieee_witness:
  "\<forall>add. freq_add double_eq add [[0x4000000000000000, 0x3FF0000000000000]]
           0x4000000000000000 0x3FF0000000000000
         = [[0x4000000000000000, add 0x3FF0000000000000 0x3FF0000000000000]]"
proof
  fix add :: "double_bits \<Rightarrow> double_bits \<Rightarrow> double_bits"
  have l: "(LEAST k::nat. k < 1 \<and> P) = 0" if P for P
    using that by (intro Least_equality) auto
  show "freq_add double_eq add [[0x4000000000000000, 0x3FF0000000000000]]
           0x4000000000000000 0x3FF0000000000000
         = [[0x4000000000000000, add 0x3FF0000000000000 0x3FF0000000000000]]"
    using tabulate_equality_ieee [of add "[[0x4000000000000000, 0x3FF0000000000000]]"
        "0x4000000000000000" "0x3FF0000000000000"]
    by (simp add: is_nan_def is_zero_def l)
qed

text \<open>
  The claim as stated, with equality of the raw bit patterns, fails in both directions:
  \<open>-0.0\<close> (sign bit only) is found at the key \<open>+0.0\<close> and accumulated into it although the
  patterns differ, and a NaN is not found at a key with the very same pattern, in a
  frequency table and in the crosstab alike.
\<close>

theorem tabulate_equality_counterexample:
  "freq_search double_eq 0x8000000000000000 [[0x0000000000000000, 0x3FF0000000000000]] = Some 0
   \<and> (0x8000000000000000 :: double_bits) \<noteq> 0x0000000000000000
   \<and> freq_search double_eq 0x7FF8000000000000 [[0x7FF8000000000000, 0x3FF0000000000000]] = None
   \<and> find_observation double_eq [[0x0000000000000000, 0x3FF0000000000000, 0x3FF0000000000000]]
         [0x8000000000000000, 0x3FF0000000000000] 2 = Some 0
   \<and> find_observation double_eq [[0x7FF8000000000000, 0x3FF0000000000000, 0x3FF0000000000000]]
         [0x7FF8000000000000, 0x3FF0000000000000] 2 = None"
proof -
  have zeros: "double_eq 0x8000000000000000 0x0000000000000000"
    by (simp add: double_eq_def is_nan_def is_zero_def)
  have nan: "\<not> double_eq 0x7FF8000000000000 0x7FF8000000000000"
    by (simp add: double_eq_def is_nan_def is_zero_def)
  have one: "double_eq 0x3FF0000000000000 0x3FF0000000000000"
    by (simp add: double_eq_def is_nan_def is_zero_def)
  have cols: "[0..<2] = [0, Suc 0]"
    by (simp add: eval_nat_numeral upt_rec)
  show ?thesis
    using zeros nan one by (simp add: freq_search_def find_observation_def cols)
qed

subsection \<open>The tabulator on real numbers\<close>

lemma mset_qsort_insert: "mset (qsort_insert cmp a bs) = add_mset a (mset bs)"
  by (induction bs) auto

lemma mset_qsort: "mset (qsort cmp xs) = mset xs"
  by (induction xs) (auto simp: qsort_def mset_qsort_insert)

lemma set_qsort: "set (qsort cmp xs) = set xs"
  using mset_qsort [of cmp xs] by (metis set_mset_mset)

lemma length_qsort: "length (qsort cmp xs) = length xs"
  using mset_qsort [of cmp xs] by (metis size_mset)

lemma sum_list_qsort: "sum_list (map f (qsort cmp xs)) = (sum_list (map f xs) :: real)"
proof -
  have "mset (map f (qsort cmp xs)) = mset (map f xs)"
    by (simp add: mset_qsort)
  then show ?thesis by (metis sum_mset_sum_list)
qed

lemma sorted_qsort_insert:
  fixes key :: "'a \<Rightarrow> real"
  assumes le: "\<And>a b. cmp a b \<le> 0 \<Longrightarrow> key a \<le> key b"
    and ge: "\<And>a b. \<not> cmp a b \<le> 0 \<Longrightarrow> key b \<le> key a"
  shows "sorted (map key bs) \<Longrightarrow> sorted (map key (qsort_insert cmp a bs))"
proof (induction bs)
  case Nil
  then show ?case by simp
next
  case (Cons b bs)
  show ?case
  proof (cases "cmp a b \<le> 0")
    case True
    with Cons.prems le [OF True] show ?thesis by auto
  next
    case False
    have "set (qsort_insert cmp a bs) = insert a (set bs)"
      using mset_qsort_insert [of cmp a bs] by (metis set_mset_add_mset_insert set_mset_mset)
    with False Cons ge [OF False] show ?thesis by auto
  qed
qed

lemma sorted_qsort:
  fixes key :: "'a \<Rightarrow> real"
  assumes "\<And>a b. cmp a b \<le> 0 \<Longrightarrow> key a \<le> key b"
    and "\<And>a b. \<not> cmp a b \<le> 0 \<Longrightarrow> key b \<le> key a"
  shows "sorted (map key (qsort cmp xs))"
proof (induction xs)
  case Nil
  then show ?case by (simp add: qsort_def)
next
  case (Cons x xs)
  have "qsort cmp (x # xs) = qsort_insert cmp x (qsort cmp xs)"
    by (simp add: qsort_def)
  with Cons sorted_qsort_insert [of cmp key, OF assms] show ?case by simp
qed

lemma compare_obs_1_le: "compare_obs 1 a b \<le> 0 \<Longrightarrow> a ! 0 \<le> b ! 0"
  by (auto simp: compare_obs_def Let_def split: if_splits)

lemma compare_obs_1_ge: "\<not> compare_obs 1 a b \<le> 0 \<Longrightarrow> b ! 0 \<le> a ! 0"
  by (auto simp: compare_obs_def Let_def split: if_splits)

lemma sorted_sort_dataset_1: "sorted (map (\<lambda>r. r ! 0) (sort_dataset rows 1))"
  unfolding sort_dataset_def
proof (rule sorted_qsort)
  show "\<And>a b. compare_obs 1 a b \<le> 0 \<Longrightarrow> a ! 0 \<le> b ! 0"
    by (rule compare_obs_1_le)
  show "\<And>a b. \<not> compare_obs 1 a b \<le> 0 \<Longrightarrow> b ! 0 \<le> a ! 0"
    by (rule compare_obs_1_ge)
qed

lemma distinct_sort_dataset:
  "distinct (map f rows) \<Longrightarrow> distinct (map f (sort_dataset rows c))"
proof -
  assume d: "distinct (map f rows)"
  have "mset (map f (sort_dataset rows c)) = mset (map f rows)"
    by (simp add: sort_dataset_def mset_qsort)
  with d show ?thesis by (metis mset_eq_imp_distinct_iff)
qed


subsection \<open>Table updates on real numbers\<close>

lemma sum_list_update_real:
  "k < length xs \<Longrightarrow> sum_list (xs[k := x]) = sum_list xs - xs ! k + (x::real)"
proof (induction xs arbitrary: k)
  case Nil
  then show ?case by simp
next
  case (Cons a xs)
  then show ?case by (cases k) auto
qed

lemma sum_list_map_update_real:
  "k < length xs \<Longrightarrow>
   sum_list (map f (xs[k := x])) = sum_list (map f xs) - f (xs ! k) + (f x :: real)"
  by (simp add: map_update sum_list_update_real)

lemma freq_search_eq_None:
  "(freq_search (=) t tbl = None) = (t \<notin> (\<lambda>r. r ! 0) ` set tbl)"
  by (auto simp: freq_search_def first_index_None)

lemma freq_add_keys:
  "map (\<lambda>r. r ! 0) (freq_add (=) (+) tbl t w) =
     (if t \<in> (\<lambda>r. r ! 0) ` set tbl then map (\<lambda>r. r ! 0) tbl else map (\<lambda>r. r ! 0) tbl @ [t])"
proof (cases "freq_search (=) t tbl")
  case None
  then show ?thesis
    using freq_search_eq_None [of t tbl] by (simp add: freq_add_def)
next
  case (Some k)
  then have k: "k < length tbl"
    by (auto simp: freq_search_def dest: first_index_Some)
  have "map (\<lambda>r. r ! 0) (tbl[k := (tbl ! k)[1 := tbl ! k ! 1 + w]]) = map (\<lambda>r. r ! 0) tbl"
    using k by (simp add: map_update list_eq_iff_nth_eq nth_list_update)
  with Some freq_search_eq_None [of t tbl] show ?thesis
    by (simp add: freq_add_def)
qed

lemma freq_add_distinct:
  "distinct (map (\<lambda>r. r ! 0) tbl) \<Longrightarrow> distinct (map (\<lambda>r. r ! 0) (freq_add (=) (+) tbl t w))"
  by (auto simp: freq_add_keys)

lemma freq_add_has_key: "t \<in> (\<lambda>r. r ! 0) ` set (freq_add (=) (+) tbl t w)"
proof -
  have "t \<in> set (map (\<lambda>r. r ! 0) (freq_add (=) (+) tbl t w))"
    unfolding freq_add_keys by auto
  then show ?thesis by simp
qed

lemma freq_add_keeps_keys:
  "(\<lambda>r. r ! 0) ` set tbl \<subseteq> (\<lambda>r. r ! 0) ` set (freq_add (=) (+) tbl t w)"
proof -
  have "set (map (\<lambda>r. r ! 0) tbl) \<subseteq> set (map (\<lambda>r. r ! 0) (freq_add (=) (+) tbl t w))"
    unfolding freq_add_keys by auto
  then show ?thesis by simp
qed

lemma xtab_add_lengths:
  assumes "\<forall>r \<in> set tbl. length r = nv + 2" and "length obs = Suc nv"
  shows "\<forall>r \<in> set (xtab_add (=) (+) tbl obs nv w). length r = nv + 2"
proof (cases "find_observation (=) tbl obs (1 + nv)")
  case None
  with assms show ?thesis by (simp add: xtab_add_def)
next
  case (Some i)
  then have i: "i < length tbl"
    by (auto simp: find_observation_def dest: first_index_Some)
  then have len: "length (tbl ! i) = nv + 2" using assms(1) by simp
  have "set (tbl[i := (tbl ! i)[1 + nv := tbl ! i ! (1 + nv) + w]])
        \<subseteq> insert ((tbl ! i)[1 + nv := tbl ! i ! (1 + nv) + w]) (set tbl)"
    by (rule set_update_subset_insert)
  with assms(1) len Some show ?thesis
    by (auto simp: xtab_add_def)
qed

lemma xtab_add_sum:
  fixes tbl :: "real list list"
  assumes "\<forall>r \<in> set tbl. length r = nv + 2" and "length obs = Suc nv"
  shows "(\<Sum>r\<leftarrow>xtab_add (=) (+) tbl obs nv w. r ! (nv + 1)) = (\<Sum>r\<leftarrow>tbl. r ! (nv + 1)) + w"
proof (cases "find_observation (=) tbl obs (1 + nv)")
  case None
  with assms show ?thesis by (simp add: xtab_add_def nth_append)
next
  case (Some i)
  then have i: "i < length tbl"
    by (auto simp: find_observation_def dest: first_index_Some)
  then have len: "length (tbl ! i) = nv + 2" using assms(1) by simp
  have "(\<Sum>r\<leftarrow>tbl[i := (tbl ! i)[1 + nv := tbl ! i ! (1 + nv) + w]]. r ! (nv + 1))
        = (\<Sum>r\<leftarrow>tbl. r ! (nv + 1)) - tbl ! i ! (nv + 1)
          + ((tbl ! i)[1 + nv := tbl ! i ! (1 + nv) + w]) ! (nv + 1)"
    using i by (rule sum_list_map_update_real)
  also have "\<dots> = (\<Sum>r\<leftarrow>tbl. r ! (nv + 1)) + w"
    using len by simp
  finally show ?thesis using Some by (simp add: xtab_add_def)
qed

lemma xtab_add_column:
  assumes "c \<le> nv" and "length obs = Suc nv"
  shows "(\<lambda>r. r ! c) ` set (xtab_add (=) (+) tbl obs nv w) \<subseteq> insert (obs ! c) ((\<lambda>r. r ! c) ` set tbl)"
proof (cases "find_observation (=) tbl obs (1 + nv)")
  case None
  with assms show ?thesis by (auto simp: xtab_add_def nth_append)
next
  case (Some i)
  then have i: "i < length tbl"
    by (auto simp: find_observation_def dest: first_index_Some)
  have "map (\<lambda>r. r ! c) (tbl[i := (tbl ! i)[1 + nv := tbl ! i ! (1 + nv) + w]]) = map (\<lambda>r. r ! c) tbl"
    using i assms(1) by (simp add: map_update list_eq_iff_nth_eq nth_list_update)
  then have "(\<lambda>r. r ! c) ` set (tbl[i := (tbl ! i)[1 + nv := tbl ! i ! (1 + nv) + w]]) = (\<lambda>r. r ! c) ` set tbl"
    by (metis set_map)
  with Some show ?thesis by (auto simp: xtab_add_def)
qed

lemma tabulate_obs_inv:
  assumes "tab_inv (numiv m) s W"
  shows "tab_inv (numiv m) (tabulate_obs ds m row s) (W + pos_weight ds row)"
proof (cases "obs_weight ds row > 0")
  case False
  with assms show ?thesis
    by (cases s) (simp add: tabulate_obs_def pos_weight_def)
next
  case True
  obtain fr xt where s: "s = (fr, xt)" by (cases s)
  define nv where "nv = numiv m"
  define w where "w = obs_weight ds row"
  define obs where "obs = map (obs_target m row) [0..<Suc nv]"
  define fr' where "fr' = map (\<lambda>j. freq_add (=) (+) (fr ! j) (obs ! j) w) [0..<Suc nv]"
  define xt' where "xt' = xtab_add (=) (+) xt obs nv w"
  have step: "tabulate_obs ds m row s = (fr', xt')"
    using True by (simp add: tabulate_obs_def s Let_def fr'_def xt'_def obs_def w_def nv_def)
  from assms have inv:
    "length fr = Suc nv"
    "\<forall>j<Suc nv. distinct (map (\<lambda>r. r ! 0) (fr ! j))"
    "\<forall>r \<in> set xt. length r = nv + 2"
    "\<forall>j<Suc nv. (\<lambda>r. r ! j) ` set xt \<subseteq> (\<lambda>r. r ! 0) ` set (fr ! j)"
    "(\<Sum>r\<leftarrow>xt. r ! (nv + 1)) = W"
    by (simp_all add: tab_inv_def s nv_def)
  have lobs: "length obs = Suc nv" by (simp add: obs_def del: upt_Suc)
  have nth_fr: "fr' ! j = freq_add (=) (+) (fr ! j) (obs ! j) w" if "j < Suc nv" for j
    using that by (simp add: fr'_def del: upt_Suc)
  have 1: "length fr' = Suc nv" by (simp add: fr'_def del: upt_Suc)
  have 2: "\<forall>j<Suc nv. distinct (map (\<lambda>r. r ! 0) (fr' ! j))"
    using inv(2) by (simp add: nth_fr freq_add_distinct)
  have 3: "\<forall>r \<in> set xt'. length r = nv + 2"
    unfolding xt'_def using xtab_add_lengths [OF inv(3) lobs] .
  have 4: "\<forall>j<Suc nv. (\<lambda>r. r ! j) ` set xt' \<subseteq> (\<lambda>r. r ! 0) ` set (fr' ! j)"
  proof (intro allI impI)
    fix j assume j: "j < Suc nv"
    then have "j \<le> nv" by simp
    from xtab_add_column [OF this lobs]
    have "(\<lambda>r. r ! j) ` set xt' \<subseteq> insert (obs ! j) ((\<lambda>r. r ! j) ` set xt)"
      unfolding xt'_def .
    also have "\<dots> \<subseteq> insert (obs ! j) ((\<lambda>r. r ! 0) ` set (fr ! j))"
      using inv(4) j by auto
    also have "\<dots> \<subseteq> (\<lambda>r. r ! 0) ` set (fr' ! j)"
      unfolding nth_fr [OF j]
      using freq_add_has_key [of "obs ! j" "fr ! j" w]
        freq_add_keeps_keys [of "fr ! j" "obs ! j" w] by auto
    finally show "(\<lambda>r. r ! j) ` set xt' \<subseteq> (\<lambda>r. r ! 0) ` set (fr' ! j)" .
  qed
  have 5: "(\<Sum>r\<leftarrow>xt'. r ! (nv + 1)) = W + pos_weight ds row"
    unfolding xt'_def
    using xtab_add_sum [OF inv(3) lobs] inv(5) True by (simp add: pos_weight_def w_def)
  show ?thesis
    unfolding step tab_inv_def nv_def [symmetric] using 1 2 3 4 5 by simp
qed

lemma tabulate_fold_inv:
  "tab_inv (numiv m) s W \<Longrightarrow>
   tab_inv (numiv m) (fold (tabulate_obs ds m) rows s) (W + (\<Sum>row\<leftarrow>rows. pos_weight ds row))"
proof (induction rows arbitrary: s W)
  case Nil
  then show ?case by simp
next
  case (Cons row rows)
  from Cons.IH [OF tabulate_obs_inv [OF Cons.prems, of ds row]]
  show ?case by (simp add: add.assoc)
qed

lemma tabulate_scan_inv:
  "tab_inv (numiv m) (tabulate_scan ds m) (\<Sum>row\<leftarrow>ds_obs ds. pos_weight ds row)"
proof -
  have "tab_inv (numiv m) (replicate (Suc (numiv m)) [], []) 0"
    by (simp add: tab_inv_def del: replicate_Suc)
  from tabulate_fold_inv [OF this, of ds "ds_obs ds"] show ?thesis
    by (simp add: tabulate_scan_def)
qed

lemma tabulate_fields:
  "numiv (tabulate ds m) = numiv m"
  "direct (tabulate ds m) = direct m"
  "ints (tabulate ds m) = ints m"
  "ds_nvars (xtab (tabulate ds m)) = 2 + numiv m"
  "ds_obs (xtab (tabulate ds m)) = sort_dataset (snd (tabulate_scan ds m)) (1 + numiv m)"
  by (simp_all add: tabulate_def numiv_def split: prod.splits)

lemma tabulate_freqs:
  assumes "j < Suc (numiv m)"
  shows "ds_obs (freqs (tabulate ds m) ! j) = sort_dataset (fst (tabulate_scan ds m) ! j) 1"
proof -
  obtain fr xt where s: "tabulate_scan ds m = (fr, xt)" by (cases "tabulate_scan ds m")
  have "length fr = Suc (numiv m)"
    using tabulate_scan_inv [of m ds] by (simp add: tab_inv_def s)
  with assms show ?thesis by (simp add: tabulate_def s)
qed

lemma set_sort_dataset: "set (sort_dataset rows c) = set rows"
  by (simp add: sort_dataset_def set_qsort)

lemma tabulate_xtab_lengths:
  "\<forall>r \<in> set (ds_obs (xtab (tabulate ds m))). length r = numiv m + 2"
  using tabulate_scan_inv [of m ds]
  by (cases "tabulate_scan ds m") (simp add: tab_inv_def tabulate_fields set_sort_dataset)

lemma tabulate_xtab_sum:
  "(\<Sum>r\<leftarrow>ds_obs (xtab (tabulate ds m)). r ! (numiv m + 1)) = (\<Sum>row\<leftarrow>ds_obs ds. pos_weight ds row)"
  using tabulate_scan_inv [of m ds]
  by (cases "tabulate_scan ds m")
     (simp add: tab_inv_def tabulate_fields sort_dataset_def sum_list_qsort)

lemma tabulate_values_in_levels:
  assumes "j < Suc (numiv m)"
  shows "(\<lambda>r. r ! j) ` set (ds_obs (xtab (tabulate ds m)))
         \<subseteq> (\<lambda>r. r ! 0) ` set (ds_obs (freqs (tabulate ds m) ! j))"
  using tabulate_scan_inv [of m ds] assms
  by (cases "tabulate_scan ds m")
     (simp add: tab_inv_def tabulate_fields tabulate_freqs set_sort_dataset)

lemma tabulate_levels_sorted:
  assumes "j < Suc (numiv m)"
  shows "sorted_wrt (<) (map (\<lambda>r. r ! 0) (ds_obs (freqs (tabulate ds m) ! j)))"
proof -
  obtain fr xt where s: "tabulate_scan ds m = (fr, xt)" by (cases "tabulate_scan ds m")
  have "distinct (map (\<lambda>r. r ! 0) (fr ! j))"
    using tabulate_scan_inv [of m ds] assms by (simp add: tab_inv_def s)
  then have "distinct (map (\<lambda>r. r ! 0) (sort_dataset (fr ! j) 1))"
    by (rule distinct_sort_dataset)
  moreover have "sorted (map (\<lambda>r. r ! 0) (sort_dataset (fr ! j) 1))"
    by (rule sorted_sort_dataset_1)
  ultimately show ?thesis
    by (simp add: tabulate_freqs [OF assms] s strict_sorted_iff)
qed

lemma obs_weight_obs_update [simp]: "obs_weight (ds\<lparr>ds_obs := rows\<rparr>) = obs_weight ds"
  by (simp add: obs_weight_def fun_eq_iff)

lemma tabulate_obs_obs_update [simp]:
  "tabulate_obs (ds\<lparr>ds_obs := rows\<rparr>) m = tabulate_obs ds m"
  by (simp add: tabulate_obs_def fun_eq_iff)

lemma fold_tabulate_filter:
  "fold (tabulate_obs ds m) (filter (\<lambda>row. obs_weight ds row > 0) rows) s
   = fold (tabulate_obs ds m) rows s"
proof (induction rows arbitrary: s)
  case Nil
  then show ?case by simp
next
  case (Cons row rows)
  then show ?case by (cases s) (simp add: tabulate_obs_def)
qed

lemma tabulate_ignores_nonpositive:
  "tabulate (ds\<lparr>ds_obs := filter (\<lambda>row. obs_weight ds row > 0) (ds_obs ds)\<rparr>) m = tabulate ds m"
  by (simp add: tabulate_def tabulate_scan_def fold_tabulate_filter)

lemma sum_list_pos_member:
  fixes f :: "'a \<Rightarrow> real"
  assumes "\<forall>x \<in> set xs. 0 \<le> f x" and "x \<in> set xs" and "0 < f x"
  shows "0 < (\<Sum>x\<leftarrow>xs. f x)"
  using assms
proof (induction xs)
  case Nil
  then show ?case by simp
next
  case (Cons a xs)
  have rest: "0 \<le> (\<Sum>x\<leftarrow>xs. f x)"
    using Cons.prems(1) by (intro sum_list_nonneg) auto
  show ?case
  proof (cases "x = a")
    case True
    with Cons.prems(3) rest show ?thesis by simp
  next
    case False
    with Cons have "0 < (\<Sum>x\<leftarrow>xs. f x)" by simp
    moreover have "0 \<le> f a" using Cons.prems(1) by simp
    ultimately show ?thesis by simp
  qed
qed

lemma tabulate_xtab_nonempty:
  assumes "\<exists>row \<in> set (ds_obs ds). obs_weight ds row > 0"
  shows "ds_obs (xtab (tabulate ds m)) \<noteq> []"
proof
  assume e: "ds_obs (xtab (tabulate ds m)) = []"
  have nonneg: "\<forall>row \<in> set (ds_obs ds). 0 \<le> pos_weight ds row"
    by (simp add: pos_weight_def)
  from assms obtain row where row: "row \<in> set (ds_obs ds)" "0 < pos_weight ds row"
    by (auto simp: pos_weight_def)
  have "0 < (\<Sum>row\<leftarrow>ds_obs ds. pos_weight ds row)"
    using nonneg row by (rule sum_list_pos_member)
  with tabulate_xtab_sum [where ds = ds and m = m] e show False by simp
qed

subsection \<open>Populations and the design loop\<close>

lemma populations_fold:
  "populations xt c = (if xt = [] then None
      else Some (fold (pop_step xt c) [1..<length xt] (1, [0], xt ! 0 ! (c - 1))))"
  by (simp only: populations_def)

lemma pop_fold_inv:
  assumes "fold (pop_step xt c) [1..<k] (1, [0], xt ! 0 ! (c - 1)) = (N, px, M)" and "1 \<le> k"
  shows "length px = k \<and> N = Suc (px ! (k - 1)) \<and> M = (\<Sum>i<k. xt ! i ! (c - 1)) \<and> px ! 0 = 0
     \<and> (\<forall>i. 0 < i \<and> i < k \<longrightarrow>
            px ! i = (if popchange (xt ! i) (xt ! (i - 1)) (c - 2) then Suc (px ! (i - 1)) else px ! (i - 1)))
     \<and> (\<forall>p<N. \<exists>i<k. px ! i = p)"
  using assms
proof (induction k arbitrary: N px M)
  case 0
  then show ?case by simp
next
  case (Suc k)
  show ?case
  proof (cases "k = 0")
    case True
    with Suc.prems show ?thesis by auto
  next
    case False
    then have k1: "1 \<le> k" by simp
    obtain N0 px0 M0 where prev: "fold (pop_step xt c) [1..<k] (1, [0], xt ! 0 ! (c - 1)) = (N0, px0, M0)"
      by (metis prod_cases3)
    note IH = Suc.IH [OF prev k1]
    have upt: "[1..<Suc k] = [1..<k] @ [k]" using k1 by simp
    define N' where "N' = (if popchange (xt ! k) (xt ! (k - 1)) (c - 2) then N0 + 1 else N0)"
    have "pop_step xt c k (N0, px0, M0) = (N, px, M)"
      using Suc.prems(1) unfolding upt fold_append comp_apply prev by simp
    then have now: "(N, px, M) = (N', px0 @ [N' - 1], M0 + xt ! k ! (c - 1))"
      by (auto simp: pop_step_def N'_def Let_def)
    then have N: "N = N'" and px: "px = px0 @ [N' - 1]" and M: "M = M0 + xt ! k ! (c - 1)"
      by simp_all
    have len: "length px0 = k" using IH by simp
    have last: "px ! k = N' - 1" using len by (simp add: px nth_append)
    have old: "px ! i = px0 ! i" if "i < k" for i using that len by (simp add: px nth_append)
    have N0: "N0 = Suc (px0 ! (k - 1))" using IH by simp
    have a: "length px = Suc k" using len by (simp add: px)
    have b: "N = Suc (px ! k)" using N0 by (simp add: N last N'_def)
    have c: "M = (\<Sum>i<Suc k. xt ! i ! (c - 1))" using IH by (simp add: M)
    have d: "px ! 0 = 0" using IH old [of 0] k1 by simp
    have e: "px ! i = (if popchange (xt ! i) (xt ! (i - 1)) (c - 2) then Suc (px ! (i - 1)) else px ! (i - 1))"
      if "0 < i" "i < Suc k" for i
    proof (cases "i = k")
      case True
      have "px ! (k - 1) = px0 ! (k - 1)" using old [of "k - 1"] k1 by simp
      with True show ?thesis using N0 by (simp add: last N'_def)
    next
      case False
      with that have ik: "i < k" by simp
      then have "i - 1 < k" by simp
      with IH that ik show ?thesis by (simp add: old)
    qed
    have f: "\<exists>i<Suc k. px ! i = p" if "p < N" for p
    proof (cases "p < N0")
      case True
      with IH obtain i where "i < k" "px0 ! i = p" by blast
      then show ?thesis using old [of i] by (intro exI [of _ i]) simp
    next
      case False
      with that have "p = N' - 1" by (auto simp: N N'_def split: if_splits)
      then show ?thesis using last by (intro exI [of _ k]) simp
    qed
    show ?thesis using a b c d e f by simp
  qed
qed

lemma populations_Some:
  assumes "populations xt c = Some (N, px, M)"
  shows "xt \<noteq> [] \<and> length px = length xt \<and> M = (\<Sum>r\<leftarrow>xt. r ! (c - 1))
     \<and> (\<forall>i. 0 < i \<and> i < length xt \<longrightarrow>
            px ! i = (if popchange (xt ! i) (xt ! (i - 1)) (c - 2) then Suc (px ! (i - 1)) else px ! (i - 1)))
     \<and> (\<forall>p<N. \<exists>i<length xt. px ! i = p)
     \<and> N = Suc (px ! (length xt - 1))"
proof -
  from assms have ne: "xt \<noteq> []"
    by (auto simp: populations_fold split: if_splits)
  then have k: "1 \<le> length xt" by (cases xt) auto
  from assms ne have "fold (pop_step xt c) [1..<length xt] (1, [0], xt ! 0 ! (c - 1)) = (N, px, M)"
    unfolding populations_fold by simp
  note inv = pop_fold_inv [OF this k]
  have "(\<Sum>i<length xt. xt ! i ! (c - 1)) = (\<Sum>r\<leftarrow>xt. r ! (c - 1))"
    by (simp add: sum_list_sum_nth atLeast0LessThan)
  with inv ne show ?thesis by simp
qed

lemma populations_nonempty:
  "xt \<noteq> [] \<Longrightarrow> \<exists>N px M. populations xt c = Some (N, px, M)"
  unfolding populations_fold by (simp only: if_False) (metis prod_cases3)

lemma popchange_iff: "popchange row prev ncov = (\<exists>j<ncov. row ! j \<noteq> prev ! j)"
  by (auto simp: popchange_def first_index_None)

lemma popindex_mono_same:
  assumes chain: "\<forall>i. 0 < i \<and> i < length xt \<longrightarrow>
            px ! i = (if popchange (xt ! i) (xt ! (i - 1)) ncov then Suc (px ! (i - 1)) else px ! (i - 1))"
    and "i \<le> i'" and "i' < length xt"
  shows "px ! i \<le> px ! i' \<and> (px ! i = px ! i' \<longrightarrow> (\<forall>j<ncov. xt ! i' ! j = xt ! i ! j))"
  using assms(2,3)
proof (induction i' rule: nat_induct)
  case 0
  then show ?case by simp
next
  case (Suc k)
  show ?case
  proof (cases "i = Suc k")
    case True
    then show ?thesis by simp
  next
    case False
    with Suc.prems have ik: "i \<le> k" "k < length xt" by simp_all
    note IH = Suc.IH [OF ik]
    have step: "px ! Suc k = (if popchange (xt ! Suc k) (xt ! k) ncov then Suc (px ! k) else px ! k)"
      using chain Suc.prems(2) by (metis diff_Suc_1 zero_less_Suc)
    show ?thesis
    proof (cases "popchange (xt ! Suc k) (xt ! k) ncov")
      case True
      with step IH show ?thesis by simp
    next
      case False
      then have "\<forall>j<ncov. xt ! Suc k ! j = xt ! k ! j" by (simp add: popchange_iff)
      with False step IH show ?thesis by simp
    qed
  qed
qed

lemma encode_row_cong:
  "\<forall>j<ncov. row ! j = row' ! j \<Longrightarrow> encode_row m dummy ncov row = encode_row m dummy ncov row'"
proof -
  assume a: "\<forall>j<ncov. row ! j = row' ! j"
  have "map (\<lambda>j. encode_var m dummy j (row ! j)) [0..<ncov]
        = map (\<lambda>j. encode_var m dummy j (row' ! j)) [0..<ncov]"
    using a by (intro map_cong) auto
  then show ?thesis by (simp only: encode_row_def)
qed

lemma design_loop_totals:
  assumes "\<forall>(row, p) \<in> set pairs. p < N \<and> (\<exists>f \<in> set (ds_obs (freqs m ! numiv m)). row ! (c - 2) = f ! 0)"
    and "length n = N" and "length Y = N"
    and "\<forall>r \<in> set Y. length r = length (ds_obs (freqs m ! numiv m))"
    and "lastpop = - 1 \<or> lastpop = int xr"
  shows "\<exists>lp xr' X' Y' n'. design_loop m dummy c pairs (lastpop, xr, X, Y, n) = Some (lp, xr', X', Y', n')
     \<and> sum_list n' = sum_list n + (\<Sum>(row, p)\<leftarrow>pairs. row ! (c - 1)) \<and> length n' = N"
  using assms
proof (induction pairs arbitrary: lastpop xr X Y n)
  case Nil
  then show ?case by simp
next
  case (Cons pr pairs)
  obtain row p where pr: "pr = (row, p)" by (cases pr)
  let ?dvf = "ds_obs (freqs m ! numiv m)"
  from Cons.prems(1) pr have p: "p < N" and ex: "\<exists>f \<in> set ?dvf. row ! (c - 2) = f ! 0"
    by auto
  from ex obtain j where j: "first_index (\<lambda>f. row ! (c - 2) = f ! 0) ?dvf = Some j"
    using first_index_None [of "\<lambda>f. row ! (c - 2) = f ! 0" ?dvf]
    by (cases "first_index (\<lambda>f. row ! (c - 2) = f ! 0) ?dvf") auto
  then have jl: "j < length ?dvf" by (auto dest: first_index_Some)
  define xr1 where "xr1 = (if int p \<noteq> lastpop then p else xr)"
  define X1 where "X1 = (if int p \<noteq> lastpop then X[p := encode_row m dummy (c - 2) row] else X)"
  have xr1: "xr1 = p"
    using Cons.prems(5) by (auto simp: xr1_def)
  define Y1 where "Y1 = mat_set Y p j (row ! (c - 1))"
  define n1 where "n1 = n[p := n ! p + Y1 ! p ! j]"
  have step: "design_loop m dummy c (pr # pairs) (lastpop, xr, X, Y, n)
      = design_loop m dummy c pairs (int p, p, X1, Y1, n1)"
    using j xr1 by (simp add: pr xr1_def X1_def Y1_def n1_def Let_def split: if_splits)
  have Yp: "length (Y ! p) = length ?dvf"
    using Cons.prems(3,4) p by simp
  have Y1pj: "Y1 ! p ! j = row ! (c - 1)"
    using p jl Yp Cons.prems(3) by (simp add: Y1_def nth_mat_set)
  have sum1: "sum_list n1 = sum_list n + row ! (c - 1)"
    using p Cons.prems(2) by (simp add: n1_def Y1pj sum_list_update_real)
  have len1: "length n1 = N" using Cons.prems(2) by (simp add: n1_def)
  have Y1len: "length Y1 = N" using Cons.prems(3) by (simp add: Y1_def)
  have "length (Y1 ! i) = length ?dvf" if "i < N" for i
    using Cons.prems(3,4) that by (simp add: Y1_def nth_mat_set)
  with Y1len have Y1rows: "\<forall>r \<in> set Y1. length r = length ?dvf"
    by (auto simp: in_set_conv_nth)
  have rest: "\<forall>(row, p) \<in> set pairs. p < N \<and> (\<exists>f \<in> set ?dvf. row ! (c - 2) = f ! 0)"
    using Cons.prems(1) by simp
  from Cons.IH [OF rest len1 Y1len Y1rows, of "int p" p X1]
  obtain lp xr' X' Y' n' where
    "design_loop m dummy c pairs (int p, p, X1, Y1, n1) = Some (lp, xr', X', Y', n')"
    "sum_list n' = sum_list n1 + (\<Sum>(row, p)\<leftarrow>pairs. row ! (c - 1))" "length n' = N"
    by auto
  then show ?case
    unfolding step by (simp add: sum1 pr)
qed

lemma design_loop_rows:
  assumes "design_loop m dummy c pairs (lastpop, xr, X, Y, n) = Some (lp, xr', X', Y', n')"
    and "\<forall>(row, p) \<in> set pairs \<union> D. p < length X"
    and "\<forall>(row, p) \<in> set pairs \<union> D. \<forall>(row', p') \<in> set pairs \<union> D.
           p = p' \<longrightarrow> encode_row m dummy (c - 2) row = encode_row m dummy (c - 2) row'"
    and "\<forall>(row, p) \<in> D. X ! p = encode_row m dummy (c - 2) row"
    and "lastpop = - 1 \<or> (\<exists>row. (row, nat lastpop) \<in> D \<and> 0 \<le> lastpop)"
    and "lastpop = - 1 \<or> lastpop = int xr"
  shows "length X' = length X \<and> (\<forall>(row, p) \<in> set pairs \<union> D. X' ! p = encode_row m dummy (c - 2) row)"
  using assms
proof (induction pairs arbitrary: lastpop xr X Y n D)
  case Nil
  then show ?case by auto
next
  case (Cons pr pairs)
  obtain row p where pr: "pr = (row, p)" by (cases pr)
  let ?enc = "encode_row m dummy (c - 2)"
  let ?dvf = "ds_obs (freqs m ! numiv m)"
  define X1 where "X1 = (if int p \<noteq> lastpop then X[p := ?enc row] else X)"
  from Cons.prems(1) obtain j where j: "first_index (\<lambda>f. row ! (c - 2) = f ! 0) ?dvf = Some j"
    by (cases "first_index (\<lambda>f. row ! (c - 2) = f ! 0) ?dvf") (auto simp: pr Let_def split: if_splits)
  have xr1: "(if int p \<noteq> lastpop then p else xr) = p"
    using Cons.prems(6) by auto
  define Y1 where "Y1 = mat_set Y p j (row ! (c - 1))"
  define n1 where "n1 = n[p := n ! p + Y1 ! p ! j]"
  have step: "design_loop m dummy c pairs (int p, p, X1, Y1, n1) = Some (lp, xr', X', Y', n')"
    using Cons.prems(1) j xr1
    by (simp add: pr X1_def Y1_def n1_def Let_def split: if_splits)
  define D' where "D' = insert (row, p) D"
  have sets: "set pairs \<union> D' = set (pr # pairs) \<union> D"
    by (auto simp: D'_def pr)
  have pX: "p < length X" using Cons.prems(2) by (auto simp: pr)
  have lenX1: "length X1 = length X" by (simp add: X1_def)
  have same: "?enc r = ?enc row" if "(r, p) \<in> D" for r
    using Cons.prems(3) that by (auto simp: pr)
  have X1p: "X1 ! p = ?enc row"
  proof (cases "int p = lastpop")
    case False
    then show ?thesis using pX by (simp add: X1_def)
  next
    case True
    with Cons.prems(5) obtain row0 where "(row0, p) \<in> D" by auto
    with Cons.prems(4) same [of row0] True show ?thesis by (auto simp: X1_def)
  qed
  have X1other: "X1 ! q = X ! q" if "q \<noteq> p" for q
    using that by (simp add: X1_def)
  have p2: "\<forall>(row, p) \<in> set pairs \<union> D'. p < length X1"
    unfolding sets lenX1 using Cons.prems(2) .
  have p3: "\<forall>(row, p) \<in> set pairs \<union> D'. \<forall>(row', p') \<in> set pairs \<union> D'.
           p = p' \<longrightarrow> ?enc row = ?enc row'"
    unfolding sets using Cons.prems(3) .
  have p4: "\<forall>(r, q) \<in> D'. X1 ! q = ?enc r"
  proof (clarify)
    fix r q assume rq: "(r, q) \<in> D'"
    show "X1 ! q = ?enc r"
    proof (cases "q = p")
      case True
      from rq have "?enc r = ?enc row"
        using same [of r] True by (auto simp: D'_def)
      with X1p True show ?thesis by simp
    next
      case False
      with rq have "(r, q) \<in> D" by (simp add: D'_def)
      with Cons.prems(4) X1other [OF False] show ?thesis by auto
    qed
  qed
  have p5: "int p = - 1 \<or> (\<exists>row. (row, nat (int p)) \<in> D' \<and> 0 \<le> int p)"
    by (auto simp: D'_def)
  have p6: "int p = - 1 \<or> int p = int p" by simp
  from Cons.IH [OF step p2 p3 p4 p5 p6]
  show ?case unfolding sets lenX1 .
qed

lemma startcol_loop_inv:
  "startcol_loop m n = (map (\<lambda>j. 1 + (\<Sum>j'<j. colcount m j')) [0..<n],
                        map (colcount m) [0..<n], 1 + (\<Sum>j'<n. colcount m j'))"
proof (induction n)
  case 0
  then show ?case by (simp add: startcol_loop_def)
next
  case (Suc n)
  have "startcol_loop m (Suc n) =
     (\<lambda>(startcol, colspan, xc).
             let xc' = (if direct m ! n then xc + 1 else xc + (freq_n m n - 1))
             in (startcol @ [xc], colspan @ [xc' - xc], xc')) (startcol_loop m n)"
    by (simp add: startcol_loop_def)
  then show ?case
    unfolding Suc by (simp add: colcount_def Let_def)
qed

lemma startcol_nth:
  "j < n \<Longrightarrow> startcol m n ! j = 1 + (\<Sum>j'<j. colcount m j')"
  by (simp add: startcol_def startcol_loop_inv del: upt_Suc)

lemma colspan_nth: "j < n \<Longrightarrow> colspan m n ! j = colcount m j"
  by (simp add: colspan_def startcol_loop_inv del: upt_Suc)

lemma length_encode_var:
  "direct m ! j \<or> ds_obs (freqs m ! j) \<noteq> [] \<Longrightarrow>
   int (length (encode_var m dummy j v)) = colcount m j"
  by (cases "ds_obs (freqs m ! j)") (auto simp: encode_var_def colcount_def freq_n_def Let_def)

lemma concat_map_upt_nth:
  assumes "j < n" and "k < length (f j)"
  shows "concat (map f [0..<n]) ! ((\<Sum>j'<j. length (f j')) + k) = f j ! k
     \<and> (\<Sum>j'<j. length (f j')) + k < length (concat (map f [0..<n]))"
  using assms
proof (induction n)
  case 0
  then show ?case by simp
next
  case (Suc n)
  have len: "length (concat (map f [0..<n])) = (\<Sum>j'<n. length (f j'))"
    by (induction n) simp_all
  show ?case
  proof (cases "j = n")
    case True
    with Suc.prems len show ?thesis by (simp add: nth_append)
  next
    case False
    with Suc.prems have "j < n" by simp
    from Suc.IH [OF this Suc.prems(2)] show ?thesis by (simp add: nth_append)
  qed
qed

lemma encode_row_nth:
  assumes "j < ncov" and "k < length (encode_var m dummy j (row ! j))"
    and "\<forall>j'<j. direct m ! j' \<or> ds_obs (freqs m ! j') \<noteq> []"
  shows "encode_row m dummy ncov row ! (nat (startcol m ncov ! j) + k)
         = encode_var m dummy j (row ! j) ! k"
proof -
  let ?f = "\<lambda>j. encode_var m dummy j (row ! j)"
  have "(\<Sum>j'<j. colcount m j') = (\<Sum>j'<j. int (length (?f j')))"
    using assms(3) by (intro sum.cong) (simp_all add: length_encode_var)
  also have "\<dots> = int (\<Sum>j'<j. length (?f j'))" by simp
  finally have "startcol m ncov ! j = int (Suc (\<Sum>j'<j. length (?f j')))"
    using assms(1) by (simp add: startcol_nth)
  then have "nat (startcol m ncov ! j) = Suc (\<Sum>j'<j. length (?f j'))"
    by (simp only: nat_int)
  then show ?thesis
    using concat_map_upt_nth [where f = ?f, OF assms(1,2)]
    by (simp add: encode_row_def)
qed

lemma encode_var_nth:
  assumes "\<not> direct m ! j" and "k < length (ds_obs (freqs m ! j)) - 1"
  shows "k < length (encode_var m dummy j v)"
    and "encode_var m dummy j v ! k =
       (if v = ds_obs (freqs m ! j) ! k ! 0 then 1
        else if \<not> dummy \<and> v = ds_obs (freqs m ! j) ! (length (ds_obs (freqs m ! j)) - 1) ! 0 then - 1
        else 0)"
  using assms by (simp_all add: encode_var_def Let_def)

lemma mlelr_design_Some:
  assumes "mlelr_design opts ds m0 = Some d"
  shows "\<exists>N px M pv lp xr X Y n.
     populations (ds_obs (xtab (tabulate ds m0))) (2 + numiv m0) = Some (N, px, M)
     \<and> get_option opts ''params'' = Some pv
     \<and> design_loop (tabulate ds m0) (pv = ''dummy'') (2 + numiv m0)
          (zip (ds_obs (xtab (tabulate ds m0))) px)
          (- 1, 0, replicate N [],
           replicate N (replicate (length (ds_obs (freqs (tabulate ds m0) ! numiv m0))) 0),
           replicate N 0) = Some (lp, xr, X, Y, n)
     \<and> d = \<lparr>d_model = tabulate ds m0, d_N = N, d_popindex = px, d_M = M,
             d_J = length (ds_obs (freqs (tabulate ds m0) ! numiv m0)),
             d_K = count_K (tabulate ds m0), d_X = X, d_Y = Y, d_n = n\<rparr>"
  using assms
  by (auto simp: mlelr_design_def Let_def tabulate_fields split: option.splits prod.splits)

lemma popindex_bound:
  assumes "populations xt c = Some (N, px, M)" and "i < length xt"
  shows "px ! i < N"
proof -
  note P = populations_Some [OF assms(1)]
  have "i \<le> length xt - 1" "length xt - 1 < length xt"
    using assms(2) by simp_all
  from popindex_mono_same [of xt px "c - 2", OF _ this] P
  show ?thesis by simp
qed

lemma popindex_same:
  assumes "populations xt c = Some (N, px, M)" and "i < length xt" and "i' < length xt"
    and "px ! i = px ! i'"
  shows "\<forall>j<c - 2. xt ! i ! j = xt ! i' ! j"
proof -
  note P = populations_Some [OF assms(1)]
  show ?thesis
  proof (cases "i \<le> i'")
    case True
    from popindex_mono_same [of xt px "c - 2", OF _ True assms(3)] P assms(4)
    show ?thesis by simp
  next
    case False
    then have "i' \<le> i" by simp
    from popindex_mono_same [of xt px "c - 2", OF _ this assms(2)] P assms(4)
    show ?thesis by simp
  qed
qed


lemma design_pairs_ok:
  assumes P: "populations (ds_obs (xtab (tabulate ds m0))) (2 + numiv m0) = Some (N, px, M)"
  shows "\<forall>(row, p) \<in> set (zip (ds_obs (xtab (tabulate ds m0))) px).
           p < N \<and> (\<exists>f \<in> set (ds_obs (freqs (tabulate ds m0) ! numiv (tabulate ds m0))).
                        row ! (2 + numiv m0 - 2) = f ! 0)"
proof (clarify)
  fix row p
  let ?xt = "ds_obs (xtab (tabulate ds m0))"
  assume "(row, p) \<in> set (zip ?xt px)"
  then obtain i where i: "i < length ?xt" "row = ?xt ! i" "p = px ! i"
    by (auto simp: in_set_zip)
  have a: "p < N" using popindex_bound [OF P i(1)] i(3) by simp
  have "row ! numiv m0 \<in> (\<lambda>r. r ! numiv m0) ` set ?xt"
    using i by auto
  with tabulate_values_in_levels [of "numiv m0" m0 ds]
  have "row ! numiv m0 \<in> (\<lambda>r. r ! 0) ` set (ds_obs (freqs (tabulate ds m0) ! numiv m0))"
    by auto
  then have b: "\<exists>f \<in> set (ds_obs (freqs (tabulate ds m0) ! numiv (tabulate ds m0))).
                        row ! (2 + numiv m0 - 2) = f ! 0"
    by (auto simp: tabulate_fields)
  from a b show "p < N \<and> (\<exists>f \<in> set (ds_obs (freqs (tabulate ds m0) ! numiv (tabulate ds m0))).
                        row ! (2 + numiv m0 - 2) = f ! 0)" ..
qed

lemma tabulate_levels_nonempty:
  assumes "ds_obs (xtab (tabulate ds m0)) \<noteq> []" and "j < Suc (numiv m0)"
  shows "ds_obs (freqs (tabulate ds m0) ! j) \<noteq> []"
proof -
  from assms(1) obtain r where "r \<in> set (ds_obs (xtab (tabulate ds m0)))"
    by (cases "ds_obs (xtab (tabulate ds m0))") auto
  then have "r ! j \<in> (\<lambda>r. r ! j) ` set (ds_obs (xtab (tabulate ds m0)))" by simp
  with tabulate_values_in_levels [OF assms(2), of ds] show ?thesis by auto
qed

subsection \<open>Claims about the design builder\<close>

text \<open>
  Claim C4. Let \<open>j\<close> be a categorical main effect whose frequency table holds the levels
  \<open>l\<^sub>0 < l\<^sub>1 < ... < l\<^sub>L\<^sub>-\<^sub>1\<close> (sorted, distinct, so the last one is the largest), and let
  crosstab row \<open>i\<close> belong to population \<open>p\<close>, with value \<open>v\<close> for the variable (every row of
  the population has that value, and every population below \<open>N\<close> has a row). Then for
  \<open>k \<le> L - 2\<close> the encoding column \<open>k\<close> of the variable, column \<open>startcol[j] + k\<close> of \<open>X[p]\<close>,
  is 1 if \<open>v = l\<^sub>k\<close>; otherwise, when the option \<open>params\<close> is not \<open>dummy\<close>, it is \<open>-1\<close> if \<open>v\<close>
  is the largest level and 0 if not; and with \<open>params = dummy\<close> it is 0.
\<close>

theorem design_encoding:
  assumes "wf_input ds m0" and "mlelr_design opts ds m0 = Some d"
    and "i < length (ds_obs (xtab (d_model d)))"
    and "j < numiv m0" and "\<not> direct m0 ! j"
    and "k < length (ds_obs (freqs (d_model d) ! j)) - 1"
  shows "d_popindex d ! i < d_N d
     \<and> (\<forall>p<d_N d. \<exists>i'<length (ds_obs (xtab (d_model d))). d_popindex d ! i' = p)
     \<and> sorted_wrt (<) (map (\<lambda>f. f ! 0) (ds_obs (freqs (d_model d) ! j)))
     \<and> (\<forall>l<length (ds_obs (freqs (d_model d) ! j)) - 1.
            ds_obs (freqs (d_model d) ! j) ! l ! 0
              < ds_obs (freqs (d_model d) ! j) ! (length (ds_obs (freqs (d_model d) ! j)) - 1) ! 0)
     \<and> ds_obs (xtab (d_model d)) ! i ! j \<in> set (map (\<lambda>f. f ! 0) (ds_obs (freqs (d_model d) ! j)))
     \<and> (\<forall>i'<length (ds_obs (xtab (d_model d))). d_popindex d ! i' = d_popindex d ! i \<longrightarrow>
            ds_obs (xtab (d_model d)) ! i' ! j = ds_obs (xtab (d_model d)) ! i ! j)
     \<and> d_X d ! (d_popindex d ! i) ! (nat (startcol (d_model d) (numiv m0) ! j) + k)
        = (if ds_obs (xtab (d_model d)) ! i ! j = ds_obs (freqs (d_model d) ! j) ! k ! 0 then 1
           else if get_option opts ''params'' \<noteq> Some ''dummy''
                   \<and> ds_obs (xtab (d_model d)) ! i ! j
                       = ds_obs (freqs (d_model d) ! j) ! (length (ds_obs (freqs (d_model d) ! j)) - 1) ! 0
                then - 1
           else 0)"
proof -
  let ?m = "tabulate ds m0"
  let ?xt = "ds_obs (xtab ?m)"
  let ?c = "2 + numiv m0"
  let ?J = "length (ds_obs (freqs ?m ! numiv m0))"
  from mlelr_design_Some [OF assms(2)] obtain N px M pv lp xr X Y n where
    P: "populations ?xt ?c = Some (N, px, M)"
    and pv: "get_option opts ''params'' = Some pv"
    and L: "design_loop ?m (pv = ''dummy'') ?c (zip ?xt px)
          (- 1, 0, replicate N [], replicate N (replicate ?J 0), replicate N 0) = Some (lp, xr, X, Y, n)"
    and d: "d = \<lparr>d_model = ?m, d_N = N, d_popindex = px, d_M = M, d_J = ?J,
             d_K = count_K ?m, d_X = X, d_Y = Y, d_n = n\<rparr>"
    by blast
  note PS = populations_Some [OF P]
  have i: "i < length ?xt" using assms(3) by (simp add: d)
  let ?enc = "encode_row ?m (pv = ''dummy'') (?c - 2)"
  have inrange: "\<forall>(row, p) \<in> set (zip ?xt px) \<union> {}. p < length (replicate N ([]::real list))"
    using design_pairs_ok [OF P] by auto
  have same: "\<forall>(row, p) \<in> set (zip ?xt px) \<union> {}. \<forall>(row', p') \<in> set (zip ?xt px) \<union> {}.
           p = p' \<longrightarrow> ?enc row = ?enc row'"
  proof (clarify)
    fix row p row' p'
    assume "(row, p) \<in> set (zip ?xt px) \<union> {}" "(row', p) \<in> set (zip ?xt px) \<union> {}"
    then obtain a b where a: "a < length ?xt" "row = ?xt ! a" "p = px ! a"
      and b: "b < length ?xt" "row' = ?xt ! b" "p = px ! b"
      by (auto simp: in_set_zip)
    from popindex_same [OF P a(1) b(1)] a(3) b(3)
    have "\<forall>j<?c - 2. row ! j = row' ! j" by (simp add: a(2) b(2))
    then show "?enc row = ?enc row'" by (rule encode_row_cong)
  qed
  have rows: "\<forall>(row, p) \<in> set (zip ?xt px) \<union> {}. X ! p = ?enc row"
    using design_loop_rows [OF L inrange same] by simp
  have "(?xt ! i, px ! i) \<in> set (zip ?xt px)"
    using i PS by (auto simp: in_set_zip)
  with rows have Xrow: "X ! (px ! i) = ?enc (?xt ! i)" by auto
  have ne: "?xt \<noteq> []" using PS by simp
  have jc: "j < ?c - 2" using assms(4) by simp
  have nd: "\<not> direct ?m ! j" using assms(5) by (simp add: tabulate_fields)
  have kk: "k < length (ds_obs (freqs ?m ! j)) - 1" using assms(6) by (simp add: d)
  note EV = encode_var_nth [OF nd kk, of "pv = ''dummy''" "?xt ! i ! j"]
  have lev: "\<forall>j'<j. direct ?m ! j' \<or> ds_obs (freqs ?m ! j') \<noteq> []"
    using tabulate_levels_nonempty [OF ne] assms(4) by simp
  have cell: "X ! (px ! i) ! (nat (startcol ?m (?c - 2) ! j) + k)
      = encode_var ?m (pv = ''dummy'') j (?xt ! i ! j) ! k"
    unfolding Xrow by (rule encode_row_nth [OF jc EV(1) lev])
  have dummy: "(get_option opts ''params'' \<noteq> Some ''dummy'') = (\<not> pv = ''dummy'')"
    by (simp add: pv)
  have 1: "px ! i < N" using popindex_bound [OF P i] .
  have 2: "sorted_wrt (<) (map (\<lambda>f. f ! 0) (ds_obs (freqs ?m ! j)))"
    using tabulate_levels_sorted [of j m0 ds] assms(4) by simp
  have pops: "\<forall>p<N. \<exists>i'<length ?xt. px ! i' = p"
    using PS by simp
  have largest: "\<forall>l<length (ds_obs (freqs ?m ! j)) - 1.
            ds_obs (freqs ?m ! j) ! l ! 0
              < ds_obs (freqs ?m ! j) ! (length (ds_obs (freqs ?m ! j)) - 1) ! 0"
  proof (intro allI impI)
    fix l assume l: "l < length (ds_obs (freqs ?m ! j)) - 1"
    let ?lv = "map (\<lambda>f. f ! 0) (ds_obs (freqs ?m ! j))"
    have "?lv ! l < ?lv ! (length (ds_obs (freqs ?m ! j)) - 1)"
      using sorted_wrt_nth_less [OF 2, of l "length (ds_obs (freqs ?m ! j)) - 1"] l by simp
    with l show "ds_obs (freqs ?m ! j) ! l ! 0
              < ds_obs (freqs ?m ! j) ! (length (ds_obs (freqs ?m ! j)) - 1) ! 0"
      by simp
  qed
  have 3: "?xt ! i ! j \<in> set (map (\<lambda>f. f ! 0) (ds_obs (freqs ?m ! j)))"
    using tabulate_values_in_levels [of j m0 ds] assms(4) i by auto
  have 4: "\<forall>i'<length ?xt. px ! i' = px ! i \<longrightarrow> ?xt ! i' ! j = ?xt ! i ! j"
    using popindex_same [OF P _ i] jc by blast
  have 5: "X ! (px ! i) ! (nat (startcol ?m (numiv m0) ! j) + k)
        = (if ?xt ! i ! j = ds_obs (freqs ?m ! j) ! k ! 0 then 1
           else if get_option opts ''params'' \<noteq> Some ''dummy''
                   \<and> ?xt ! i ! j = ds_obs (freqs ?m ! j) ! (length (ds_obs (freqs ?m ! j)) - 1) ! 0
                then - 1
           else 0)"
    using cell EV(2) unfolding dummy by simp
  show ?thesis
    unfolding d using 1 2 pops largest 3 4 5 by simp
qed

theorem design_encoding_witness:
  "mlelr_design init_options ds_w m_w = Some design_w
   \<and> d_X design_w ! 1 ! 1 = - 1
   \<and> ds_obs (xtab (d_model design_w)) ! 1 ! 0 = ds_obs (freqs (d_model design_w) ! 0) ! 1 ! 0
   \<and> d_X design_w ! 0 ! 1 = 1"
proof -
  have wf: "wf_input ds_w m_w" by code_simp
  have D: "mlelr_design init_options ds_w m_w = Some design_w" by code_simp
  have i: "1 < length (ds_obs (xtab (d_model design_w)))" by code_simp
  have j: "0 < numiv m_w" by code_simp
  have nd: "\<not> direct m_w ! 0" by code_simp
  have k: "0 < length (ds_obs (freqs (d_model design_w) ! 0)) - 1" by code_simp
  have idx: "d_popindex design_w ! 1 = 1"
    "nat (startcol (d_model design_w) (numiv m_w) ! 0) + 0 = 1"
    "get_option init_options ''params'' \<noteq> Some ''dummy''"
    "ds_obs (xtab (d_model design_w)) ! 1 ! 0 \<noteq> ds_obs (freqs (d_model design_w) ! 0) ! 0 ! 0"
    "ds_obs (xtab (d_model design_w)) ! 1 ! 0
       = ds_obs (freqs (d_model design_w) ! 0) ! (length (ds_obs (freqs (d_model design_w) ! 0)) - 1) ! 0"
    "ds_obs (xtab (d_model design_w)) ! 1 ! 0 = ds_obs (freqs (d_model design_w) ! 0) ! 1 ! 0"
    "d_X design_w ! 0 ! 1 = 1"
    by code_simp+
  from design_encoding [OF wf D i j nd k]
  have "d_X design_w ! (d_popindex design_w ! 1)
          ! (nat (startcol (d_model design_w) (numiv m_w) ! 0) + 0) = - 1"
    using idx(3,4,5) by simp
  then show ?thesis
    using D idx by simp
qed

text \<open>
  The population totals. For every dataset with at least one observation of strictly
  positive weight, steps 1 to 5 of \<^verbatim>\<open>mlelr\<close> produce a design whose population totals
  satisfy \<open>n[0] + ... + n[N-1] = M\<close>, and \<open>M\<close> is the sum of the weights of exactly the
  observations whose weight is strictly positive. The observations with weight \<open>\<le> 0\<close>
  contribute nothing: the whole design (frequency tables, crosstab, \<open>M\<close>, \<open>Y\<close>, \<open>n\<close>) is the
  one built from the dataset without them.
\<close>

lemma design_totals:
  assumes "wf_input ds m0" and "get_option opts ''params'' \<noteq> None"
    and "\<exists>row \<in> set (ds_obs ds). obs_weight ds row > 0"
  shows "\<exists>d. mlelr_design opts ds m0 = Some d
     \<and> sum_list (d_n d) = d_M d
     \<and> d_M d = (\<Sum>row\<leftarrow>ds_obs ds. if obs_weight ds row > 0 then obs_weight ds row else 0)
     \<and> mlelr_design opts (ds\<lparr>ds_obs := filter (\<lambda>row. obs_weight ds row > 0) (ds_obs ds)\<rparr>) m0
         = Some d"
proof -
  let ?m = "tabulate ds m0"
  let ?xt = "ds_obs (xtab ?m)"
  let ?c = "2 + numiv m0"
  let ?J = "length (ds_obs (freqs ?m ! numiv m0))"
  from assms(2) obtain pv where pv: "get_option opts ''params'' = Some pv" by auto
  have ne: "?xt \<noteq> []" using assms(3) by (rule tabulate_xtab_nonempty)
  then obtain N px M where P: "populations ?xt ?c = Some (N, px, M)"
    using populations_nonempty by blast
  note PS = populations_Some [OF P]
  have J: "length (ds_obs (freqs ?m ! numiv ?m)) = ?J" by (simp add: tabulate_fields)
  have "\<exists>lp xr' X' Y' n'. design_loop ?m (pv = ''dummy'') ?c (zip ?xt px)
            (- 1, 0, replicate N [], replicate N (replicate ?J 0), replicate N 0)
          = Some (lp, xr', X', Y', n')
     \<and> sum_list n' = sum_list (replicate N 0) + (\<Sum>(row, p)\<leftarrow>zip ?xt px. row ! (?c - 1))
     \<and> length n' = N"
    by (rule design_loop_totals [OF design_pairs_ok [OF P]]) (simp_all add: J)
  then obtain lp xr' X' Y' n' where
    L: "design_loop ?m (pv = ''dummy'') ?c (zip ?xt px)
            (- 1, 0, replicate N [], replicate N (replicate ?J 0), replicate N 0)
          = Some (lp, xr', X', Y', n')"
    and S: "sum_list n' = sum_list (replicate N (0::real)) + (\<Sum>(row, p)\<leftarrow>zip ?xt px. row ! (?c - 1))"
    by blast
  have "(\<Sum>(row, p)\<leftarrow>zip ?xt px. row ! (?c - 1)) = (\<Sum>row\<leftarrow>map fst (zip ?xt px). row ! (?c - 1))"
    by (simp add: case_prod_unfold comp_def)
  also have "\<dots> = (\<Sum>row\<leftarrow>?xt. row ! (?c - 1))"
    using PS by simp
  finally have S': "sum_list n' = M"
    using S PS by (simp add: sum_list_replicate)
  have M: "M = (\<Sum>row\<leftarrow>ds_obs ds. pos_weight ds row)"
    using PS tabulate_xtab_sum [where ds = ds and m = m0] by simp
  define d where "d = \<lparr>d_model = ?m, d_N = N, d_popindex = px, d_M = M, d_J = ?J,
             d_K = count_K ?m, d_X = X', d_Y = Y', d_n = n'\<rparr>"
  have D: "mlelr_design opts ds m0 = Some d"
    using P pv L by (simp add: mlelr_design_def Let_def tabulate_fields d_def)
  have F: "mlelr_design opts (ds\<lparr>ds_obs := filter (\<lambda>row. obs_weight ds row > 0) (ds_obs ds)\<rparr>) m0
         = mlelr_design opts ds m0"
    by (simp add: mlelr_design_def tabulate_ignores_nonpositive)
  have "sum_list (d_n d) = d_M d" using S' by (simp add: d_def)
  moreover have "d_M d = (\<Sum>row\<leftarrow>ds_obs ds. if obs_weight ds row > 0 then obs_weight ds row else 0)"
    using M by (simp add: d_def pos_weight_def)
  ultimately show ?thesis using D F by simp
qed

lemma design_totals_example:
  "mlelr_design init_options ds_w m_w = Some design_w
   \<and> sum_list (d_n design_w) = 70 \<and> d_M design_w = 70
   \<and> mlelr_design init_options (ds_w\<lparr>ds_obs := [[1, 1, 30], [0, 0, 40]]\<rparr>) m_w = Some design_w"
proof -
  have wf: "wf_input ds_w m_w" by code_simp
  have opt: "get_option init_options ''params'' \<noteq> None" by code_simp
  have pos: "\<exists>row \<in> set (ds_obs ds_w). obs_weight ds_w row > 0" by code_simp
  have D: "mlelr_design init_options ds_w m_w = Some design_w" by code_simp
  have f: "filter (\<lambda>row. obs_weight ds_w row > 0) (ds_obs ds_w) = [[1, 1, 30], [0, 0, 40]]"
    by code_simp
  have s: "(\<Sum>row\<leftarrow>ds_obs ds_w. if obs_weight ds_w row > 0 then obs_weight ds_w row else 0) = 70"
    by code_simp
  from design_totals [OF wf opt pos] show ?thesis
    unfolding f s D by simp
qed

text \<open>
  Claim C5 (not met by the code on every dataset). The totals above are what the claim
  states, but the code reaches them only when some observation has a positive weight.
  When none has, the crosstab is empty, and step 2 still begins with
  \<^verbatim>\<open>M = xtab[0][xtabcols - 1]\<close> and \<^verbatim>\<open>popindex[0] = 0\<close>: it reads row 0 of a table without
  rows. The design builder has no result there, where the claim says \<open>M = 0\<close>.
\<close>

theorem design_totals_no_positive_weight:
  "wf_input ds_nonpositive m_w
   \<and> (\<Sum>row\<leftarrow>ds_obs ds_nonpositive.
         if obs_weight ds_nonpositive row > 0 then obs_weight ds_nonpositive row else 0) = 0
   \<and> ds_obs (xtab (tabulate ds_nonpositive m_w)) = []
   \<and> populations (ds_obs (xtab (tabulate ds_nonpositive m_w))) 3 = None
   \<and> mlelr_design init_options ds_nonpositive m_w = None"
  by code_simp

end
